theory Spec2Isabelle
  imports Main
begin

section \<open>Runes and strings\<close>

text \<open>
  A Go \<^verbatim>\<open>rune\<close> is a 32-bit signed integer holding a code point; the lexer never does
  arithmetic on one, so it is an \<^typ>\<open>int\<close> here. A Go string is modelled as the list of
  the code points it holds: the lexer only ever builds strings by appending
  \<^verbatim>\<open>string(r)\<close>, looks them up in a map and compares them.
\<close>

type_synonym rune = int

definition ch :: "char \<Rightarrow> rune" where
  "ch c = of_char c"

definition runes :: "string \<Rightarrow> rune list" where
  "runes s = map ch s"

definition eof :: rune where
  "eof = -1"

definition bom :: rune where
  "bom = 0xFEFF"

text \<open>\<^verbatim>\<open>utf8.ValidRune\<close>: the code points that are not surrogates and not out of range.\<close>

definition ValidRune :: "rune \<Rightarrow> bool" where
  "ValidRune r = ((0 \<le> r \<and> r < 0xD800) \<or> (0xDFFF < r \<and> r \<le> 0x10FFFF))"

text \<open>
  The conversion \<^verbatim>\<open>string(r)\<close> of a rune: the encoding of \<open>r\<close>, or of U+FFFD when \<open>r\<close> is
  not a valid code point (as \<^verbatim>\<open>eof\<close> is).
\<close>

definition string_of_rune :: "rune \<Rightarrow> rune list" where
  "string_of_rune r = [if ValidRune r then r else 0xFFFD]"

section \<open>The standard library's character classes\<close>

text \<open>
  \<^verbatim>\<open>unicode.IsLetter\<close>, \<^verbatim>\<open>unicode.IsDigit\<close>, \<^verbatim>\<open>unicode.IsSpace\<close> and
  \<^verbatim>\<open>unicode.ToLower\<close> belong to Go's standard library. Each answers from a fixed rule
  on Latin-1 (ASCII for \<^verbatim>\<open>ToLower\<close>) and from the Unicode range tables above it. The
  tables are a parameter of the model; the rules below them are written out. A table is
  only consulted for a rune above Latin-1 and up to \<^verbatim>\<open>unicode.MaxRune\<close>, so no class holds
  a negative rune.
\<close>

record unicode_tables =
  Letter :: "rune \<Rightarrow> bool"
  Digit :: "rune \<Rightarrow> bool"
  White_Space :: "rune \<Rightarrow> bool"
  LowerCase :: "rune \<Rightarrow> rune"

definition MaxLatin1 :: rune where
  "MaxLatin1 = 0xFF"

definition MaxASCII :: rune where
  "MaxASCII = 0x7F"

definition MaxRune :: rune where
  "MaxRune = 0x10FFFF"

definition isExcludingLatin :: "(rune \<Rightarrow> bool) \<Rightarrow> rune \<Rightarrow> bool" where
  "isExcludingLatin rangeTab r = (MaxLatin1 < r \<and> r \<le> MaxRune \<and> rangeTab r)"

definition latin1_letter :: "rune \<Rightarrow> bool" where
  "latin1_letter r =
     ((0x41 \<le> r \<and> r \<le> 0x5A) \<or> (0x61 \<le> r \<and> r \<le> 0x7A) \<or> r = 0xAA \<or> r = 0xB5 \<or> r = 0xBA
      \<or> (0xC0 \<le> r \<and> r \<le> 0xD6) \<or> (0xD8 \<le> r \<and> r \<le> 0xF6) \<or> (0xF8 \<le> r \<and> r \<le> 0xFF))"

definition IsLetter :: "unicode_tables \<Rightarrow> rune \<Rightarrow> bool" where
  "IsLetter U r =
     (if 0 \<le> r \<and> r \<le> MaxLatin1 then latin1_letter r else isExcludingLatin (Letter U) r)"

definition unicode_IsDigit :: "unicode_tables \<Rightarrow> rune \<Rightarrow> bool" where
  "unicode_IsDigit U r =
     (if r \<le> MaxLatin1 then ch CHR ''0'' \<le> r \<and> r \<le> ch CHR ''9''
      else isExcludingLatin (Digit U) r)"

definition IsSpace :: "unicode_tables \<Rightarrow> rune \<Rightarrow> bool" where
  "IsSpace U r =
     (if 0 \<le> r \<and> r \<le> MaxLatin1
      then r = 0x09 \<or> r = 0x0A \<or> r = 0x0B \<or> r = 0x0C \<or> r = 0x0D \<or> r = 0x20
           \<or> r = 0x85 \<or> r = 0xA0
      else isExcludingLatin (White_Space U) r)"

definition ToLower :: "unicode_tables \<Rightarrow> rune \<Rightarrow> rune" where
  "ToLower U r =
     (if r \<le> MaxASCII
      then (if ch CHR ''A'' \<le> r \<and> r \<le> ch CHR ''Z'' then r + (ch CHR ''a'' - ch CHR ''A'') else r)
      else LowerCase U r)"

section \<open>Go's int\<close>

text \<open>
  The positions, the error counter and the character count of a rune literal are Go
  \<^verbatim>\<open>int\<close>s: signed, of \<open>intSize\<close> bits, and \<^verbatim>\<open>++\<close> wraps around from the largest value
  to the smallest. They are \<^typ>\<open>int\<close>s here, with the wrap-around written out at every
  increment. \<open>intSize\<close> is 64, as on the 64-bit platforms (on a 32-bit platform it is 32).
\<close>

definition intSize :: nat where
  "intSize = 64"

definition maxInt :: int where
  "maxInt = 2 ^ (intSize - 1) - 1"

definition minInt :: int where
  "minInt = - (2 ^ (intSize - 1))"

definition wrap :: "int \<Rightarrow> int" where
  "wrap x = (x + 2 ^ (intSize - 1)) mod 2 ^ intSize - 2 ^ (intSize - 1)"

section \<open>Positions (package file)\<close>

record Pos =
  Line :: int
  Col :: int

definition Origin :: Pos where
  "Origin = \<lparr>Line = 1, Col = 1\<rparr>"

definition NextCharacter :: "Pos \<Rightarrow> Pos" where
  "NextCharacter p = p\<lparr>Col := wrap (Col p + 1)\<rparr>"

definition NextLine :: "Pos \<Rightarrow> Pos" where
  "NextLine p = p\<lparr>Line := wrap (Line p + 1), Col := 1\<rparr>"

section \<open>Tokens (package token)\<close>

text \<open>
  \<^verbatim>\<open>type Type uint8\<close> with its constants numbered by \<^verbatim>\<open>iota\<close>, the band sentinels
  included. The zero value of the type is \<open>EOF\<close>. The constants \<^verbatim>\<open>If\<close>, \<^verbatim>\<open>Let\<close> and
  \<^verbatim>\<open>Func\<close> are \<open>If_kw\<close>, \<open>Let_kw\<close> and \<open>Func_kw\<close> here, the method
  \<^verbatim>\<open>Type.IsOperator\<close> is \<open>Type_IsOperator\<close> (beside the function \<^verbatim>\<open>IsOperator\<close> on
  strings), and \<^verbatim>\<open>unicode.IsDigit\<close> is \<open>unicode_IsDigit\<close> (beside \<^verbatim>\<open>token.IsDigit\<close>).
\<close>

type_synonym Type = nat

named_theorems Type_defs

definition EOF :: Type where [Type_defs]: "EOF = 0"
definition Illegal :: Type where [Type_defs]: "Illegal = 1"
definition Comment :: Type where [Type_defs]: "Comment = 2"
definition literalBeg :: Type where [Type_defs]: "literalBeg = 3"
definition Identifier :: Type where [Type_defs]: "Identifier = 4"
definition Number :: Type where [Type_defs]: "Number = 5"
definition Rune :: Type where [Type_defs]: "Rune = 6"
definition String :: Type where [Type_defs]: "String = 7"
definition literalEnd :: Type where [Type_defs]: "literalEnd = 8"
definition operatorBeg :: Type where [Type_defs]: "operatorBeg = 9"
definition Plus :: Type where [Type_defs]: "Plus = 10"
definition Minus :: Type where [Type_defs]: "Minus = 11"
definition Star :: Type where [Type_defs]: "Star = 12"
definition Slash :: Type where [Type_defs]: "Slash = 13"
definition Percent :: Type where [Type_defs]: "Percent = 14"
definition Tilde :: Type where [Type_defs]: "Tilde = 15"
definition Amp :: Type where [Type_defs]: "Amp = 16"
definition Bar :: Type where [Type_defs]: "Bar = 17"
definition Caret :: Type where [Type_defs]: "Caret = 18"
definition LessLess :: Type where [Type_defs]: "LessLess = 19"
definition MoreMore :: Type where [Type_defs]: "MoreMore = 20"
definition PlusEqual :: Type where [Type_defs]: "PlusEqual = 21"
definition MinusEqual :: Type where [Type_defs]: "MinusEqual = 22"
definition StarEqual :: Type where [Type_defs]: "StarEqual = 23"
definition SlashEqual :: Type where [Type_defs]: "SlashEqual = 24"
definition PercentEqual :: Type where [Type_defs]: "PercentEqual = 25"
definition AmpEqual :: Type where [Type_defs]: "AmpEqual = 26"
definition BarEqual :: Type where [Type_defs]: "BarEqual = 27"
definition CaretEqual :: Type where [Type_defs]: "CaretEqual = 28"
definition LessLessEqual :: Type where [Type_defs]: "LessLessEqual = 29"
definition MoreMoreEqual :: Type where [Type_defs]: "MoreMoreEqual = 30"
definition EqualEqual :: Type where [Type_defs]: "EqualEqual = 31"
definition Less :: Type where [Type_defs]: "Less = 32"
definition More :: Type where [Type_defs]: "More = 33"
definition Equal :: Type where [Type_defs]: "Equal = 34"
definition Bang :: Type where [Type_defs]: "Bang = 35"
definition BangEqual :: Type where [Type_defs]: "BangEqual = 36"
definition LessEqual :: Type where [Type_defs]: "LessEqual = 37"
definition MoreEqual :: Type where [Type_defs]: "MoreEqual = 38"
definition LeftParen :: Type where [Type_defs]: "LeftParen = 39"
definition LeftBrack :: Type where [Type_defs]: "LeftBrack = 40"
definition LeftBrace :: Type where [Type_defs]: "LeftBrace = 41"
definition Comma :: Type where [Type_defs]: "Comma = 42"
definition Period :: Type where [Type_defs]: "Period = 43"
definition RightParen :: Type where [Type_defs]: "RightParen = 44"
definition RightBrack :: Type where [Type_defs]: "RightBrack = 45"
definition RightBrace :: Type where [Type_defs]: "RightBrace = 46"
definition Semicolon :: Type where [Type_defs]: "Semicolon = 47"
definition Colon :: Type where [Type_defs]: "Colon = 48"
definition operatorEnd :: Type where [Type_defs]: "operatorEnd = 49"
definition keywordBeg :: Type where [Type_defs]: "keywordBeg = 50"
definition Underscore :: Type where [Type_defs]: "Underscore = 51"
definition For :: Type where [Type_defs]: "For = 52"
definition If_kw :: Type where [Type_defs]: "If_kw = 53"
definition Else :: Type where [Type_defs]: "Else = 54"
definition Let_kw :: Type where [Type_defs]: "Let_kw = 55"
definition Const :: Type where [Type_defs]: "Const = 56"
definition Func_kw :: Type where [Type_defs]: "Func_kw = 57"
definition Break :: Type where [Type_defs]: "Break = 58"
definition Continue :: Type where [Type_defs]: "Continue = 59"
definition Return :: Type where [Type_defs]: "Return = 60"
definition Fall :: Type where [Type_defs]: "Fall = 61"
definition TypeDec :: Type where [Type_defs]: "TypeDec = 62"
definition Struct :: Type where [Type_defs]: "Struct = 63"
definition Enum :: Type where [Type_defs]: "Enum = 64"
definition Interface :: Type where [Type_defs]: "Interface = 65"
definition Namespace :: Type where [Type_defs]: "Namespace = 66"
definition keywordEnd :: Type where [Type_defs]: "keywordEnd = 67"

record Token =
  Type :: Type
  Literal :: "rune list"
  Pos :: Pos

record tokenInfo =
  name :: string
  literal :: string

text \<open>
  \<^verbatim>\<open>typeToString\<close>, as the list of its keyed entries in index order. The band sentinels
  have no entry: their array elements are zero, with an empty literal.
\<close>

definition typeToString :: "(Type \<times> tokenInfo) list" where
  "typeToString =
    [(EOF, \<lparr>name = ''EOF'', literal = '':EOF:''\<rparr>),
     (Illegal, \<lparr>name = ''ILLEGAL'', literal = '':ILLEGAL:''\<rparr>),
     (Comment, \<lparr>name = ''COMMENT'', literal = '':COMMENT:''\<rparr>),
     (Identifier, \<lparr>name = ''IDENT'', literal = '':IDENT:''\<rparr>),
     (Number, \<lparr>name = ''NUMBER'', literal = '':NUMBER:''\<rparr>),
     (Rune, \<lparr>name = ''RUNE'', literal = '':RUNE:''\<rparr>),
     (String, \<lparr>name = ''STRING'', literal = '':STRING:''\<rparr>),
     (Plus, \<lparr>name = ''PLUS'', literal = ''+''\<rparr>),
     (Minus, \<lparr>name = ''MINUS'', literal = ''-''\<rparr>),
     (Star, \<lparr>name = ''STAR'', literal = ''*''\<rparr>),
     (Slash, \<lparr>name = ''SLASH'', literal = ''/''\<rparr>),
     (Percent, \<lparr>name = ''PERCENT'', literal = ''%''\<rparr>),
     (Tilde, \<lparr>name = ''TILDE'', literal = ''~''\<rparr>),
     (Amp, \<lparr>name = ''AMPERSAND'', literal = ''&''\<rparr>),
     (Bar, \<lparr>name = ''BAR'', literal = ''|''\<rparr>),
     (Caret, \<lparr>name = ''CARET'', literal = ''^''\<rparr>),
     (LessLess, \<lparr>name = ''LESS_LESS'', literal = ''<<''\<rparr>),
     (MoreMore, \<lparr>name = ''MORE_MORE'', literal = ''>>''\<rparr>),
     (PlusEqual, \<lparr>name = ''PLUS_EQUAL'', literal = ''+=''\<rparr>),
     (MinusEqual, \<lparr>name = ''MINUS_EQUAL'', literal = ''-=''\<rparr>),
     (StarEqual, \<lparr>name = ''STAR_EQUAL'', literal = ''*=''\<rparr>),
     (SlashEqual, \<lparr>name = ''SLASH_EQUAL'', literal = ''/=''\<rparr>),
     (PercentEqual, \<lparr>name = ''PERCENT_EQUAL'', literal = ''%=''\<rparr>),
     (AmpEqual, \<lparr>name = ''AMP_EQUAL'', literal = ''&=''\<rparr>),
     (BarEqual, \<lparr>name = ''BAR_EQUAL'', literal = ''|=''\<rparr>),
     (CaretEqual, \<lparr>name = ''CARET_EQUAL'', literal = ''^=''\<rparr>),
     (LessLessEqual, \<lparr>name = ''LESS_LESS_EQUAL'', literal = ''<<=''\<rparr>),
     (MoreMoreEqual, \<lparr>name = ''MORE_MORE_EQUAL'', literal = ''>>=''\<rparr>),
     (EqualEqual, \<lparr>name = ''EQUAL_EQUAL'', literal = ''==''\<rparr>),
     (Less, \<lparr>name = ''LESS'', literal = ''<''\<rparr>),
     (More, \<lparr>name = ''MORE'', literal = ''>''\<rparr>),
     (Equal, \<lparr>name = ''EQUAL'', literal = ''=''\<rparr>),
     (Bang, \<lparr>name = ''BANG'', literal = ''!''\<rparr>),
     (BangEqual, \<lparr>name = ''BANG_EQUAL'', literal = ''!=''\<rparr>),
     (LessEqual, \<lparr>name = ''LESS_EQUAL'', literal = ''<=''\<rparr>),
     (MoreEqual, \<lparr>name = ''MORE_EQUAL'', literal = ''>=''\<rparr>),
     (LeftParen, \<lparr>name = ''LEFT_PAREN'', literal = ''(''\<rparr>),
     (LeftBrack, \<lparr>name = ''LEFT_BRACK'', literal = ''[''\<rparr>),
     (LeftBrace, \<lparr>name = ''LEFT_BRACE'', literal = ''{''\<rparr>),
     (Comma, \<lparr>name = ''COMMA'', literal = '',''\<rparr>),
     (Period, \<lparr>name = ''PERIOD'', literal = ''.''\<rparr>),
     (RightParen, \<lparr>name = ''RIGHT_PAREN'', literal = '')''\<rparr>),
     (RightBrack, \<lparr>name = ''RIGHT_BRACK'', literal = '']''\<rparr>),
     (RightBrace, \<lparr>name = ''RIGHT_BRACE'', literal = ''}''\<rparr>),
     (Semicolon, \<lparr>name = ''SEMICOLON'', literal = '';''\<rparr>),
     (Colon, \<lparr>name = ''COLON'', literal = '':''\<rparr>),
     (Underscore, \<lparr>name = ''UNDERSCORE'', literal = ''_''\<rparr>),
     (For, \<lparr>name = ''FOR'', literal = ''for''\<rparr>),
     (If_kw, \<lparr>name = ''IF'', literal = ''if''\<rparr>),
     (Else, \<lparr>name = ''ELSE'', literal = ''else''\<rparr>),
     (Let_kw, \<lparr>name = ''LET'', literal = ''let''\<rparr>),
     (Const, \<lparr>name = ''CONST'', literal = ''const''\<rparr>),
     (Func_kw, \<lparr>name = ''FUNC'', literal = ''func''\<rparr>),
     (Break, \<lparr>name = ''BREAK'', literal = ''break''\<rparr>),
     (Continue, \<lparr>name = ''CONTINUE'', literal = ''continue''\<rparr>),
     (Return, \<lparr>name = ''RETURN'', literal = ''return''\<rparr>),
     (Fall, \<lparr>name = ''FALLTHROUGH'', literal = ''fallthrough''\<rparr>),
     (TypeDec, \<lparr>name = ''TYPE'', literal = ''type''\<rparr>),
     (Struct, \<lparr>name = ''STRUCT'', literal = ''struct''\<rparr>),
     (Enum, \<lparr>name = ''ENUM'', literal = ''enum''\<rparr>),
     (Interface, \<lparr>name = ''INTERFACE'', literal = ''interface''\<rparr>),
     (Namespace, \<lparr>name = ''NAMESPACE'', literal = ''namespace''\<rparr>)]"

text \<open>\<^verbatim>\<open>init\<close>: every entry with a literal is stored under it, a later entry over an earlier.\<close>

definition stringToType :: "rune list \<rightharpoonup> Type" where
  "stringToType =
     fold (\<lambda>(tokenType, info) m.
             if literal info \<noteq> [] then m(runes (literal info) \<mapsto> tokenType) else m)
          typeToString Map.empty"

definition NewTokenType :: "rune list \<Rightarrow> Type" where
  "NewTokenType str = (case stringToType str of Some tokenType \<Rightarrow> tokenType | None \<Rightarrow> EOF)"

definition IsLiteral :: "Type \<Rightarrow> bool" where
  "IsLiteral tok = (literalBeg < tok \<and> tok < literalEnd)"

definition Type_IsOperator :: "Type \<Rightarrow> bool" where
  "Type_IsOperator tok = (operatorBeg < tok \<and> tok < operatorEnd)"

definition IsKeyword :: "Type \<Rightarrow> bool" where
  "IsKeyword tok = (keywordBeg < tok \<and> tok < keywordEnd)"

definition InsertSemiAfter :: "Type \<Rightarrow> bool" where
  "InsertSemiAfter tok =
     (if IsLiteral tok then True
      else if tok = RightParen \<or> tok = RightBrack \<or> tok = RightBrace
              \<or> tok = Break \<or> tok = Continue \<or> tok = Return then True
      else False)"

definition IsOperator :: "rune list \<Rightarrow> bool" where
  "IsOperator s = Type_IsOperator (NewTokenType s)"

definition Lookup :: "rune list \<Rightarrow> Type" where
  "Lookup nm =
     (case stringToType nm of
        Some tok \<Rightarrow> if IsKeyword tok then tok else Identifier
      | None \<Rightarrow> Identifier)"

definition IsDigit :: "rune \<Rightarrow> int \<Rightarrow> bool" where
  "IsDigit r base =
     (if r \<in> set (runes ''ABCDEFabcdef'') then base = 16
      else if r \<in> set (runes ''89'') then base \<ge> 10
      else if r \<in> set (runes ''234567'') then base \<ge> 8
      else if r \<in> set (runes ''01'') then True
      else False)"

section \<open>The lexer state (package lexer)\<close>

text \<open>
  What \<^verbatim>\<open>source.ReadRune\<close> can return, one element per call: a decoded rune, the
  replacement rune of width 1 that marks an invalid encoding, or an error that is not
  \<^verbatim>\<open>io.EOF\<close>. The end of the list is \<^verbatim>\<open>io.EOF\<close>.
\<close>

datatype read = Read rune | ReadInvalid | ReadFailure

text \<open>The causes the lexer raises, each with the values its message is formatted from.\<close>

datatype cause =
    ErrUnexpectedRune rune
  | ErrHexExponent rune
  | ErrExpectedDigits int rune
  | ErrUnclosedRuneLit
  | ErrEmptyRuneLiteral
  | ErrTooManyRuneChars
  | ErrUnclosedStringLit
  | ErrIllegalPrefix rune
  | ErrEscapeDigits "rune list" int
  | ErrInvalidCodepoint "rune list" "rune list"
  | ErrIllegalBOM
  | ErrIllegalUTF8
  | ErrSource

record Error =
  pos :: Pos
  err :: cause

text \<open>
  The fields of \<^verbatim>\<open>Lexer\<close>. \<open>tokenStream\<close> holds the tokens sent on the channel so far,
  oldest first: the channel has no buffer, so the consumer receives them one by one in
  this order, and the model follows the goroutine as long as the consumer keeps receiving.
  \<open>handled\<close> holds the errors the error handler has been called with, oldest first;
  \<open>panicked\<close> records a send on the closed channel, which ends the scanning goroutine.
  \<open>Errors\<close> and the positions are Go \<^verbatim>\<open>int\<close>s and wrap around.
\<close>

record Lexer =
  source :: "read list"
  current :: rune
  tokenStream :: "Token list"
  closed :: bool
  Errors :: int
  handled :: "Error list"
  insertSemi :: bool
  tokenStart :: Pos
  tokenEnd :: Pos
  tokenLiteral :: "rune list"
  panicked :: bool

definition raiseAt :: "Pos \<Rightarrow> cause \<Rightarrow> Lexer \<Rightarrow> Lexer" where
  "raiseAt p e L = L\<lparr>Errors := wrap (Errors L + 1), handled := handled L @ [\<lparr>pos = p, err = e\<rparr>]\<rparr>"

definition raise :: "cause \<Rightarrow> Lexer \<Rightarrow> Lexer" where
  "raise e L = raiseAt (tokenEnd L) e L"

definition raiseAtTop :: "cause \<Rightarrow> Lexer \<Rightarrow> Lexer" where
  "raiseAtTop e L = raiseAt (tokenStart L) e L"

definition close :: "Lexer \<Rightarrow> Lexer" where
  "close L = (if \<not> closed L then L\<lparr>current := eof, closed := True\<rparr> else L)"

text \<open>
  The loop of \<^verbatim>\<open>readRune\<close> over what the source still holds; the lexer it returns has
  the source advanced past everything read.
\<close>

fun readRune_loop :: "bool \<Rightarrow> read list \<Rightarrow> Lexer \<Rightarrow> rune \<times> Lexer" where
  "readRune_loop first [] L = (eof, L\<lparr>source := []\<rparr>)"
| "readRune_loop first (ReadInvalid # rest) L = readRune_loop first rest (raise ErrIllegalUTF8 L)"
| "readRune_loop first (ReadFailure # rest) L = (eof, close (raise ErrSource (L\<lparr>source := rest\<rparr>)))"
| "readRune_loop first (Read char # rest) L =
     (if char = bom
      then readRune_loop False rest (if \<not> first then raise ErrIllegalBOM L else L)
      else (char, L\<lparr>source := rest\<rparr>))"

definition readRune :: "bool \<Rightarrow> Lexer \<Rightarrow> rune \<times> Lexer" where
  "readRune first L = (if closed L then (eof, L) else readRune_loop first (source L) L)"

definition discard :: "Lexer \<Rightarrow> Lexer" where
  "discard L = L\<lparr>tokenLiteral := [], tokenStart := tokenEnd L\<rparr>"

text \<open>A send on the closed channel panics; nothing after it runs.\<close>

definition emit :: "Type \<Rightarrow> Lexer \<Rightarrow> Lexer" where
  "emit tokenType L =
     (let L1 = (if tokenType \<noteq> Comment then L\<lparr>insertSemi := InsertSemiAfter tokenType\<rparr> else L)
      in if closed L1 then L1\<lparr>panicked := True\<rparr>
         else discard (L1\<lparr>tokenStream := tokenStream L1 @
                [\<lparr>Type = tokenType, Literal = tokenLiteral L1, Pos = tokenStart L1\<rparr>]\<rparr>))"

definition consume :: "Lexer \<Rightarrow> Lexer" where
  "consume L =
     (let L1 = L\<lparr>tokenLiteral := tokenLiteral L @ string_of_rune (current L)\<rparr>;
          L2 = L1\<lparr>tokenEnd := NextCharacter (tokenEnd L1)\<rparr>;
          L3 = (if current L2 = ch (CHR 0x0A) then L2\<lparr>tokenEnd := NextLine (tokenEnd L2)\<rparr> else L2);
          (r, L4) = readRune False L3
      in L4\<lparr>current := r\<rparr>)"

text \<open>
  What is left to read: the source still unread, and the current rune when it is not
  \<open>eof\<close>. Every loop of the lexer consumes while the current rune is not \<open>eof\<close>, and
  this measure falls with each such step.
\<close>

definition remaining :: "Lexer \<Rightarrow> nat" where
  "remaining L = length (source L) + (if current L = eof then 0 else 1)"

lemma source_raiseAt [simp]: "source (raiseAt p e L) = source L"
  by (simp add: raiseAt_def)

lemma source_raise [simp]: "source (raise e L) = source L"
  by (simp add: raise_def)

lemma source_close [simp]: "source (close L) = source L"
  by (simp add: close_def)

lemma readRune_loop_length:
  "readRune_loop first xs L = (r, L') \<Longrightarrow>
     length (source L') + (if r = eof then 0 else 1) \<le> length xs"
proof (induction first xs L arbitrary: r L' rule: readRune_loop.induct)
  case (4 first char rest L)
  then show ?case
    by (cases "char = bom") (fastforce split: if_splits)+
qed (fastforce split: if_splits)+

lemma readRune_length:
  "readRune first L = (r, L') \<Longrightarrow>
     length (source L') + (if r = eof then 0 else 1) \<le> length (source L)"
  unfolding readRune_def
  by (cases "closed L") (auto dest: readRune_loop_length split: if_splits)

lemma consume_length:
  "length (source (consume L)) + (if current (consume L) = eof then 0 else 1) \<le> length (source L)"
proof -
  obtain r L4 where rd: "readRune False
      (if current L = ch (CHR 0x0A)
       then L\<lparr>tokenLiteral := tokenLiteral L @ string_of_rune (current L),
              tokenEnd := NextLine (NextCharacter (tokenEnd L))\<rparr>
       else L\<lparr>tokenLiteral := tokenLiteral L @ string_of_rune (current L),
              tokenEnd := NextCharacter (tokenEnd L)\<rparr>) = (r, L4)"
    by fastforce
  from readRune_length [OF rd] have "length (source L4) + (if r = eof then 0 else 1) \<le> length (source L)"
    by (simp split: if_splits)
  moreover have "consume L = L4\<lparr>current := r\<rparr>"
    using rd by (simp add: consume_def Let_def split: if_splits)
  ultimately show ?thesis by simp
qed

lemma remaining_consume_le: "remaining (consume L) \<le> remaining L"
  using consume_length [of L] by (simp add: remaining_def)

lemma remaining_consume_less: "current L \<noteq> eof \<Longrightarrow> remaining (consume L) < remaining L"
  using consume_length [of L] by (simp add: remaining_def)

lemma remaining_raiseAt [simp]: "remaining (raiseAt p e L) = remaining L"
  by (simp add: remaining_def raiseAt_def)

lemma remaining_raise [simp]: "remaining (raise e L) = remaining L"
  by (simp add: raise_def)

lemma remaining_raiseAtTop [simp]: "remaining (raiseAtTop e L) = remaining L"
  by (simp add: raiseAtTop_def)

lemma IsLetter_not_eof: "IsLetter U r \<Longrightarrow> r \<noteq> eof"
  by (auto simp: IsLetter_def isExcludingLatin_def eof_def MaxLatin1_def)

lemma unicode_IsDigit_not_eof: "unicode_IsDigit U r \<Longrightarrow> r \<noteq> eof"
  by (auto simp: unicode_IsDigit_def isExcludingLatin_def eof_def MaxLatin1_def ch_def)

lemma IsSpace_not_eof: "IsSpace U r \<Longrightarrow> r \<noteq> eof"
  by (auto simp: IsSpace_def isExcludingLatin_def eof_def MaxLatin1_def)

lemma IsDigit_not_eof: "IsDigit r base \<Longrightarrow> r \<noteq> eof"
  by (auto simp: IsDigit_def eof_def ch_def runes_def split: if_splits)

section \<open>The lexing modes\<close>

function consumeIdentifier :: "unicode_tables \<Rightarrow> Lexer \<Rightarrow> Lexer" where
  "consumeIdentifier U L =
     (if IsLetter U (current L) \<or> unicode_IsDigit U (current L) \<or> current L = ch CHR ''_''
      then consumeIdentifier U (consume L)
      else L)"
  by pat_completeness auto
termination
proof (relation "measure (\<lambda>(U, L). remaining L)")
  fix U :: unicode_tables and L :: Lexer
  assume "IsLetter U (current L) \<or> unicode_IsDigit U (current L) \<or> current L = ch CHR ''_''"
  then have "current L \<noteq> eof"
    by (auto dest: IsLetter_not_eof unicode_IsDigit_not_eof simp: eof_def ch_def)
  then show "((U, consume L), (U, L)) \<in> measure (\<lambda>(U, L). remaining L)"
    by (simp add: remaining_consume_less)
qed simp

declare consumeIdentifier.simps [simp del]

definition lexIdentifier :: "unicode_tables \<Rightarrow> Lexer \<Rightarrow> Lexer" where
  "lexIdentifier U L = (let L1 = consumeIdentifier U L in emit (Lookup (tokenLiteral L1)) L1)"

function discardWhitespace_loop :: "unicode_tables \<Rightarrow> Lexer \<Rightarrow> Lexer" where
  "discardWhitespace_loop U L =
     (if IsSpace U (current L) then discardWhitespace_loop U (consume L) else L)"
  by pat_completeness auto
termination
  by (relation "measure (\<lambda>(U, L). remaining L)")
     (auto dest: IsSpace_not_eof simp: remaining_consume_less)

declare discardWhitespace_loop.simps [simp del]

definition discardWhitespace :: "unicode_tables \<Rightarrow> Lexer \<Rightarrow> Lexer" where
  "discardWhitespace U L = discard (discardWhitespace_loop U L)"

function consumeDigits_loop :: "int \<Rightarrow> Lexer \<Rightarrow> Lexer" where
  "consumeDigits_loop base L =
     (if IsDigit (current L) base then consumeDigits_loop base (consume L) else L)"
  by pat_completeness auto
termination
  by (relation "measure (\<lambda>(base, L). remaining L)")
     (auto dest: IsDigit_not_eof simp: remaining_consume_less)

declare consumeDigits_loop.simps [simp del]

definition consumeDigits :: "int \<Rightarrow> bool \<Rightarrow> Lexer \<Rightarrow> Lexer" where
  "consumeDigits base required L =
     consumeDigits_loop base
       (if \<not> IsDigit (current L) base \<and> required
        then raise (ErrExpectedDigits base (current L)) L
        else L)"

text \<open>
  The rest of \<^verbatim>\<open>lexNumber\<close> once an exponent indicator stands at the current rune: the
  indicator, an optional sign, the exponent's digits.
\<close>

definition lexNumber_exponent :: "Lexer \<Rightarrow> Lexer" where
  "lexNumber_exponent L =
     (let L1 = consume L;
          L2 = (if current L1 = ch CHR ''+'' \<or> current L1 = ch CHR ''-'' then consume L1 else L1)
      in consumeDigits 10 True L2)"

text \<open>
  \<^verbatim>\<open>lexNumber\<close> in three parts. First the prefix: the base, whether a digit is required
  (\<^verbatim>\<open>cantBe0\<close>), and the lexer at the label \<^verbatim>\<open>lexingNumberBase\<close>.
\<close>

definition lexNumber_prefix :: "Lexer \<Rightarrow> int \<times> bool \<times> Lexer" where
  "lexNumber_prefix L =
     (if current L = ch CHR ''0'' then
        (let L0 = consume L in
         if current L0 = ch CHR ''x'' \<or> current L0 = ch CHR ''X'' then (16, True, consume L0)
         else if current L0 = ch CHR ''o'' \<or> current L0 = ch CHR ''O'' then (8, True, consume L0)
         else if current L0 = ch CHR ''b'' \<or> current L0 = ch CHR ''B'' then (2, True, consume L0)
         else (8, False, L0))
      else (10, False, L))"

text \<open>Last, for a base of at least 10: the fraction and the exponent.\<close>

definition lexNumber_fraction :: "unicode_tables \<Rightarrow> int \<Rightarrow> Lexer \<Rightarrow> Lexer" where
  "lexNumber_fraction U base L2 =
     (let L3 = (if current L2 = ch CHR ''.'' then consumeDigits base True (consume L2) else L2)
      in if (base = 16 \<and> ToLower U (current L3) = ch CHR ''p'')
            \<or> (base = 10 \<and> ToLower U (current L3) = ch CHR ''e'')
         then lexNumber_exponent L3
         else if base = 10 \<and> ToLower U (current L3) = ch CHR ''p''
         then lexNumber_exponent (raise (ErrHexExponent (current L3)) L3)
         else L3)"

text \<open>\<^verbatim>\<open>lexNumber\<close> up to its deferred \<^verbatim>\<open>emit\<close>.\<close>

definition lexNumber_consume :: "unicode_tables \<Rightarrow> Lexer \<Rightarrow> Lexer" where
  "lexNumber_consume U L =
     (case lexNumber_prefix L of
        (base, cantBe0, L1) \<Rightarrow>
          (let L2 = consumeDigits base cantBe0 L1
           in if base < 10 then L2 else lexNumber_fraction U base L2))"

text \<open>The deferred \<^verbatim>\<open>emit\<close> runs on every way out of \<^verbatim>\<open>lexNumber\<close>.\<close>

definition lexNumber :: "unicode_tables \<Rightarrow> Lexer \<Rightarrow> Lexer" where
  "lexNumber U L = emit Number (lexNumber_consume U L)"

text \<open>
  The digits of a hex escape: \<open>i\<close> digits are still to come; \<open>None\<close> is the early return
  after the error.
\<close>

primrec consumeEscape_digits ::
    "rune list \<Rightarrow> int \<Rightarrow> nat \<Rightarrow> rune list \<Rightarrow> Lexer \<Rightarrow> rune list option \<times> Lexer" where
  "consumeEscape_digits prefix digits 0 hexDigits L = (Some hexDigits, L)"
| "consumeEscape_digits prefix digits (Suc i) hexDigits L =
     (if \<not> IsDigit (current L) 16 then (None, raise (ErrEscapeDigits prefix digits) L)
      else consumeEscape_digits prefix digits i (hexDigits @ string_of_rune (current L)) (consume L))"

definition hexDigit :: "rune \<Rightarrow> int" where
  "hexDigit r =
     (if ch CHR ''0'' \<le> r \<and> r \<le> ch CHR ''9'' then r - ch CHR ''0''
      else if ch CHR ''a'' \<le> r \<and> r \<le> ch CHR ''f'' then r - ch CHR ''a'' + 10
      else r - ch CHR ''A'' + 10)"

text \<open>
  \<^verbatim>\<open>strconv.ParseInt(hexDigits, 16, 32)\<close> on a non-empty string of hex digits: the value,
  or the largest 32-bit integer when the value does not fit (the error is dropped).
\<close>

definition ParseInt :: "rune list \<Rightarrow> int" where
  "ParseInt hexDigits =
     (let v = foldl (\<lambda>acc d. acc * 16 + hexDigit d) 0 hexDigits
      in if v > 2 ^ 31 - 1 then 2 ^ 31 - 1 else v)"

definition consumeEscape :: "rune \<Rightarrow> Lexer \<Rightarrow> Lexer" where
  "consumeEscape quote L =
     (let L1 = consume L;
          prefix = string_of_rune (current L1);
          c = current L1;
          (digits, L2) =
            (if c = quote \<or> c = ch (CHR 0x5C) \<or> c \<in> set (runes ''vtrnfba'') then (0, L1)
             else if c = ch CHR ''x'' then (2, L1)
             else if c = ch CHR ''u'' then (4, L1)
             else if c = ch CHR ''U'' then (8, L1)
             else (0, raise (ErrIllegalPrefix c) L1));
          L3 = consume L2
      in if digits > 0 then
           (case consumeEscape_digits prefix (int digits) digits [] L3 of
              (None, L4) \<Rightarrow> L4
            | (Some hexDigits, L4) \<Rightarrow>
                if \<not> ValidRune (ParseInt hexDigits)
                then raise (ErrInvalidCodepoint prefix hexDigits) L4
                else L4)
         else L3)"

definition consumeRune :: "rune \<Rightarrow> Lexer \<Rightarrow> Lexer" where
  "consumeRune quote L =
     (if current L = ch (CHR 0x5C) then consumeEscape quote L else consume L)"

lemma remaining_consumeEscape_digits:
  "remaining (snd (consumeEscape_digits prefix digits i hexDigits L)) \<le> remaining L"
proof (induction i arbitrary: hexDigits L)
  case 0
  show ?case by simp
next
  case (Suc i)
  show ?case
  proof (cases "IsDigit (current L) 16")
    case True
    have "remaining (snd (consumeEscape_digits prefix digits i
            (hexDigits @ string_of_rune (current L)) (consume L))) \<le> remaining (consume L)"
      by (rule Suc.IH)
    also have "\<dots> \<le> remaining L"
      by (rule remaining_consume_le)
    finally show ?thesis using True by simp
  next
    case False
    then show ?thesis by simp
  qed
qed

lemma remaining_consumeEscape_le: "remaining (consumeEscape quote L) \<le> remaining (consume L)"
proof -
  define L1 where "L1 = consume L"
  have tail: "remaining (consume M) \<le> remaining L1 \<Longrightarrow>
        remaining (case consumeEscape_digits p d i [] (consume M) of
                     (None, L4) \<Rightarrow> L4
                   | (Some hexDigits, L4) \<Rightarrow>
                       if \<not> ValidRune (ParseInt hexDigits)
                       then raise (ErrInvalidCodepoint p' hexDigits) L4 else L4) \<le> remaining L1"
    for M p p' d i
    using remaining_consumeEscape_digits [of p d i "[]" "consume M"]
    by (cases "consumeEscape_digits p d i [] (consume M)") (auto split: option.splits)
  have a: "remaining (consume L1) \<le> remaining L1"
    by (rule remaining_consume_le)
  have b: "remaining (consume (raise e L1)) \<le> remaining L1" for e
    using remaining_consume_le [of "raise e L1"] by simp
  show ?thesis
    unfolding consumeEscape_def Let_def L1_def [symmetric]
    using a b tail [OF a]
    by (simp split: if_splits)
qed

lemma remaining_consumeRune_less:
  "current L \<noteq> eof \<Longrightarrow> remaining (consumeRune quote L) < remaining L"
  using remaining_consumeEscape_le [of quote L] remaining_consume_less [of L]
  by (simp add: consumeRune_def)

text \<open>
  The loop of \<^verbatim>\<open>lexRune\<close>, from the number of characters consumed so far: the count at
  the closing quote, or \<open>None\<close> for the early return of the unterminated literal.
\<close>

function lexRune_loop :: "int \<Rightarrow> Lexer \<Rightarrow> int option \<times> Lexer" where
  "lexRune_loop charsConsumed L =
     (if current L \<noteq> ch (CHR 0x27) then
        (if current L = eof \<or> current L = ch (CHR 0x0A) then (None, raise ErrUnclosedRuneLit L)
         else lexRune_loop (wrap (charsConsumed + 1)) (consumeRune (ch (CHR 0x27)) L))
      else (Some charsConsumed, L))"
  by pat_completeness auto
termination
  by (relation "measure (\<lambda>(n, L). remaining L)") (auto simp: remaining_consumeRune_less)

declare lexRune_loop.simps [simp del]

definition lexRune :: "Lexer \<Rightarrow> Lexer" where
  "lexRune L =
     (case lexRune_loop 0 (consume L) of
        (None, L1) \<Rightarrow> L1
      | (Some charsConsumed, L1) \<Rightarrow>
          (let L2 = consume L1;
               L3 = (if charsConsumed > 1 then raiseAtTop ErrTooManyRuneChars L2
                     else if charsConsumed < 1 then raiseAtTop ErrEmptyRuneLiteral L2
                     else L2)
           in emit Rune L3))"

text \<open>The loop of \<^verbatim>\<open>lexString\<close>; \<open>False\<close> is the early return of the unterminated literal.\<close>

function lexString_loop :: "Lexer \<Rightarrow> bool \<times> Lexer" where
  "lexString_loop L =
     (if current L \<noteq> ch (CHR 0x22) then
        (if current L = eof \<or> current L = ch (CHR 0x0A) then (False, raise ErrUnclosedStringLit L)
         else lexString_loop (consumeRune (ch (CHR 0x22)) L))
      else (True, L))"
  by pat_completeness auto
termination
  by (relation "measure remaining") (auto simp: remaining_consumeRune_less)

declare lexString_loop.simps [simp del]

definition lexString :: "Lexer \<Rightarrow> Lexer" where
  "lexString L =
     (case lexString_loop (consume L) of
        (False, L1) \<Rightarrow> L1
      | (True, L1) \<Rightarrow> emit String (consume L1))"

function lexComment_loop :: "Lexer \<Rightarrow> Lexer" where
  "lexComment_loop L =
     (if current L \<noteq> ch (CHR 0x0A) \<and> current L \<noteq> eof then lexComment_loop (consume L) else L)"
  by pat_completeness auto
termination
  by (relation "measure remaining") (auto simp: remaining_consume_less)

declare lexComment_loop.simps [simp del]

definition lexComment :: "Lexer \<Rightarrow> Lexer" where
  "lexComment L = emit Comment (lexComment_loop L)"

lemma ch_bounds: "0 \<le> ch c \<and> ch c < 256"
proof -
  have "(of_char c :: int) mod 256 = of_char c" by simp
  then have "(of_char c :: int) < 256 \<and> 0 \<le> (of_char c :: int)"
    by (metis pos_mod_bound pos_mod_sign zero_less_numeral)
  then show ?thesis by (simp add: ch_def)
qed

lemma stringToType_fold_keys:
  "fold (\<lambda>(tokenType, info) m.
             if literal info \<noteq> [] then m(runes (literal info) \<mapsto> tokenType) else m) xs m s = Some t
   \<Longrightarrow> m s = Some t \<or> (\<exists>str. s = runes str)"
proof (induction xs arbitrary: m)
  case Nil
  then show ?case by simp
next
  case (Cons x xs)
  obtain tokenType info where x: "x = (tokenType, info)" by (cases x)
  show ?case
  proof (cases "literal info \<noteq> []")
    case True
    with Cons.prems x have "fold (\<lambda>(tokenType, info) m.
             if literal info \<noteq> [] then m(runes (literal info) \<mapsto> tokenType) else m) xs
             (m(runes (literal info) \<mapsto> tokenType)) s = Some t"
      by simp
    from Cons.IH [OF this] show ?thesis
      by (cases "s = runes (literal info)") auto
  next
    case False
    with Cons.prems x Cons.IH [of m] show ?thesis by simp
  qed
qed

lemma stringToType_keys: "stringToType s = Some t \<Longrightarrow> \<exists>str. s = runes str"
  unfolding stringToType_def by (drule stringToType_fold_keys) simp

lemma IsOperator_keys: "IsOperator s \<Longrightarrow> \<exists>str. s = runes str"
  by (auto simp: IsOperator_def NewTokenType_def Type_IsOperator_def Type_defs
           dest: stringToType_keys split: option.splits)

lemma IsOperator_eof: "\<not> IsOperator (lit @ string_of_rune eof)"
proof
  assume "IsOperator (lit @ string_of_rune eof)"
  then obtain str where "lit @ string_of_rune eof = runes str"
    by (auto dest: IsOperator_keys)
  moreover have "string_of_rune eof = [0xFFFD]"
    by (simp add: string_of_rune_def ValidRune_def eof_def)
  ultimately have "runes str = lit @ [0xFFFD]" by simp
  then have "0xFFFD \<in> set (runes str)" by simp
  then obtain c where "ch c = 0xFFFD" by (auto simp: runes_def)
  with ch_bounds [of c] show False by simp
qed

function lexOperator_loop :: "Lexer \<Rightarrow> Lexer" where
  "lexOperator_loop L =
     (if IsOperator (tokenLiteral L @ string_of_rune (current L))
      then lexOperator_loop (consume L)
      else L)"
  by pat_completeness auto
termination
proof (relation "measure remaining")
  fix L :: Lexer
  assume "IsOperator (tokenLiteral L @ string_of_rune (current L))"
  then have "current L \<noteq> eof"
    using IsOperator_eof by auto
  then show "(consume L, L) \<in> measure remaining"
    by (simp add: remaining_consume_less)
qed simp

declare lexOperator_loop.simps [simp del]

definition lexOperator :: "Lexer \<Rightarrow> Lexer" where
  "lexOperator L = (let L1 = lexOperator_loop L in emit (NewTokenType (tokenLiteral L1)) L1)"

section \<open>The main loop\<close>

text \<open>
  \<^verbatim>\<open>lex\<close> is \<open>lex_body\<close> (one turn of its loop) and \<open>lex_loop\<close> (the loop) here.
  One turn of the loop of \<^verbatim>\<open>lex\<close>: the state after it, and whether the loop goes on.
  It stops at \<^verbatim>\<open>break lexing\<close>, and when an \<^verbatim>\<open>emit\<close> has panicked (every mode ends
  with its \<^verbatim>\<open>emit\<close>, so nothing of the turn is left to run).
\<close>

definition again :: "Lexer \<Rightarrow> bool \<times> Lexer" where
  "again L = (\<not> panicked L, L)"

definition lex_body :: "unicode_tables \<Rightarrow> Lexer \<Rightarrow> bool \<times> Lexer" where
  "lex_body U L =
     (if IsLetter U (current L) then again (lexIdentifier U L)
      else if current L = ch CHR ''_'' then again (emit Underscore (consume L))
      else if current L = ch (CHR 0x5C)
        then again (emit Identifier (consume (consumeIdentifier U (consume L))))
      else if unicode_IsDigit U (current L) then again (lexNumber U L)
      else if current L = ch (CHR 0x27) then again (lexRune L)
      else if current L = ch (CHR 0x22) then again (lexString L)
      else if IsOperator (string_of_rune (current L)) then again (lexOperator L)
      else if current L = ch CHR ''#'' then again (lexComment L)
      else if current L = ch (CHR 0x0A) \<and> insertSemi L then again (emit Semicolon L)
      else if current L = ch (CHR 0x0A) \<or> IsSpace U (current L) then again (discardWhitespace U L)
      else if current L = eof then (False, close L)
      else again (emit Illegal (consume (raise (ErrUnexpectedRune (current L)) L))))"

text \<open>
  The loop can run forever (a turn need not consume anything), so it is run for at most
  \<open>n\<close> turns: \<open>(True, L)\<close> when the goroutine has ended in state \<open>L\<close>, \<open>(False, L)\<close> when it
  stands at the head of the loop in state \<open>L\<close> after \<open>n\<close> turns.
\<close>

fun lex_loop :: "unicode_tables \<Rightarrow> nat \<Rightarrow> Lexer \<Rightarrow> bool \<times> Lexer" where
  "lex_loop U 0 L = (False, L)"
| "lex_loop U (Suc n) L =
     (case lex_body U L of
        (True, L') \<Rightarrow> lex_loop U n L'
      | (False, L') \<Rightarrow> (True, L'))"

text \<open>\<^verbatim>\<open>Lex\<close>: the lexer at the start of its goroutine, the first rune read.\<close>

definition Lex :: "read list \<Rightarrow> Lexer" where
  "Lex src =
     (let L = \<lparr>source = src, current = 0, tokenStream = [], closed = False, Errors = 0,
               handled = [], insertSemi = False, tokenStart = Origin, tokenEnd = Origin,
               tokenLiteral = [], panicked = False\<rparr>;
          (r, L') = readRune True L
      in L'\<lparr>current := r\<rparr>)"

definition HasErrors :: "Lexer \<Rightarrow> bool" where
  "HasErrors L = (Errors L > 0)"

text \<open>
  \<^verbatim>\<open>NextToken\<close>, given what the receive from the channel yields when it is reached: a
  token the goroutine sent, or the zero \<^verbatim>\<open>Token\<close> once the channel is closed and empty.
\<close>

definition zeroToken :: Token where
  "zeroToken = \<lparr>Type = 0, Literal = [], Pos = \<lparr>Line = 0, Col = 0\<rparr>\<rparr>"

definition NextToken :: "Lexer \<Rightarrow> Token \<Rightarrow> Token" where
  "NextToken L received =
     (if closed L then \<lparr>Type = EOF, Literal = [], Pos = tokenStart L\<rparr> else received)"


text \<open>A source of text that decodes without error: one read per rune.\<close>

definition text_source :: "string \<Rightarrow> read list" where
  "text_source s = map Read (runes s)"

text \<open>
  Tables that hold nothing: with them the character classes are those of Latin-1 alone.
  They give the concrete runs below a closed form.
\<close>

definition no_tables :: unicode_tables where
  "no_tables = \<lparr>Letter = (\<lambda>r. False), Digit = (\<lambda>r. False), White_Space = (\<lambda>r. False),
                 LowerCase = (\<lambda>r. r)\<rparr>"

section \<open>Notions the properties are stated with\<close>

text \<open>The order of positions: by line, then by column.\<close>

definition pos_le :: "Pos \<Rightarrow> Pos \<Rightarrow> bool" where
  "pos_le p q = (Line p < Line q \<or> (Line p = Line q \<and> Col p \<le> Col q))"

text \<open>A closed lexer stands at the end of the file.\<close>

definition closed_at_eof :: "Lexer \<Rightarrow> bool" where
  "closed_at_eof L = (closed L \<longrightarrow> current L = eof)"

text \<open>
  \<open>within L L'\<close>: from \<open>L\<close> to \<open>L'\<close> the lexer has stayed inside one token. Nothing was sent
  or discarded, the literal has only grown at its end, and when no read of the source
  can fail the lexer has not been closed.
\<close>

definition within :: "Lexer \<Rightarrow> Lexer \<Rightarrow> bool" where
  "within L L' =
     (tokenStart L' = tokenStart L \<and> tokenStream L' = tokenStream L
      \<and> panicked L' = panicked L \<and> insertSemi L' = insertSemi L
      \<and> (closed_at_eof L \<longrightarrow> closed_at_eof L')
      \<and> (\<exists>s. tokenLiteral L' = tokenLiteral L @ s)
      \<and> (\<not> closed L \<and> ReadFailure \<notin> set (source L)
           \<longrightarrow> \<not> closed L' \<and> ReadFailure \<notin> set (source L')))"

text \<open>The lexer just before \<^verbatim>\<open>consume\<close> reads the next rune.\<close>

definition consumed :: "Lexer \<Rightarrow> Lexer" where
  "consumed L =
     L\<lparr>tokenLiteral := tokenLiteral L @ string_of_rune (current L),
       tokenEnd := (if current L = ch (CHR 0x0A) then NextLine (NextCharacter (tokenEnd L))
                    else NextCharacter (tokenEnd L))\<rparr>"

text \<open>
  The room a lexer has left. A \<^verbatim>\<open>consume\<close> moves the end of the token one column on, or
  to the next line, and takes at least one read from the source unless none is left; only
  a \<^verbatim>\<open>consume\<close> at the end of the file moves the end of the token for nothing. \<open>pot\<close> is
  what the line and column of the end of the token can add up to as long as no \<^verbatim>\<open>consume\<close>
  is done at the end of the file.
\<close>

definition pot :: "Lexer \<Rightarrow> int" where
  "pot L = Line (tokenEnd L) + Col (tokenEnd L) + 2 * int (length (source L))
           + (if current L = eof then 0 else 1)"

text \<open>The token window lies at or after the origin, its start not after its end.\<close>

definition placed :: "Lexer \<Rightarrow> bool" where
  "placed L =
     (1 \<le> Line (tokenStart L) \<and> 1 \<le> Col (tokenStart L) \<and> pos_le (tokenStart L) (tokenEnd L)
      \<and> 1 \<le> Col (tokenEnd L))"

text \<open>
  \<open>room N L\<close>: no position of \<open>L\<close> or after it goes beyond \<open>N\<close>, and \<open>N\<close> fits an \<^verbatim>\<open>int\<close>.
  \<open>spent N L\<close>: the same at the end of the file, after the one \<^verbatim>\<open>consume\<close> a turn of the
  loop can do there.
\<close>

definition room :: "int \<Rightarrow> Lexer \<Rightarrow> bool" where
  "room N L = (N < maxInt \<and> placed L \<and> pot L \<le> N)"

definition spent :: "int \<Rightarrow> Lexer \<Rightarrow> bool" where
  "spent N L = (N < maxInt \<and> placed L \<and> pot L \<le> N + 1 \<and> current L = eof)"

definition good :: "int \<Rightarrow> Lexer \<Rightarrow> bool" where
  "good N L = (room N L \<or> spent N L)"

text \<open>
  What a turn of the loop amounts to: the lexer moves on within the token, keeping the
  room it had, and then the token is emitted, or discarded, or left standing at a newline
  or at the end of the file, or the lexer is closed at the end of the file.
\<close>

definition turn :: "int \<Rightarrow> Lexer \<Rightarrow> Lexer \<Rightarrow> bool" where
  "turn N L L' =
     (\<exists>M. within L M \<and> (room N L \<longrightarrow> good N M) \<and>
        ((\<exists>tokenType. L' = emit tokenType M) \<or> L' = discard M
         \<or> (L' = M \<and> (current M = eof \<or> current M = ch (CHR 0x0A)))
         \<or> (L' = close M \<and> current M = eof)))"


text \<open>
  Between turns the literal buffer is empty, unless the lexer stands at a newline or at the
  end of the file (where an unterminated literal returns early) or has panicked.
\<close>

definition settled :: "Lexer \<Rightarrow> bool" where
  "settled L =
     (panicked L \<or> tokenLiteral L = [] \<or> current L = eof \<or> current L = ch (CHR 0x0A))"

definition lexer_inv :: "Lexer \<Rightarrow> bool" where
  "lexer_inv L = (closed_at_eof L \<and> settled L)"

text \<open>
  A rune of plain text inside a string literal: a valid code point that is not the quote,
  a backslash, a newline or a byte order mark.
\<close>

definition plain :: "rune \<Rightarrow> bool" where
  "plain r = (r \<noteq> ch (CHR 0x22) \<and> r \<noteq> ch (CHR 0x5C) \<and> r \<noteq> ch (CHR 0x0A) \<and> r \<noteq> eof
              \<and> r \<noteq> bom \<and> ValidRune r)"

section \<open>Increments and the wrap-around\<close>

lemma two_power_intSize: "(2::int) ^ intSize = 2 * 2 ^ (intSize - 1)"
  by (simp add: intSize_def)

lemma wrap_id: "minInt \<le> x \<Longrightarrow> x \<le> maxInt \<Longrightarrow> wrap x = x"
  unfolding wrap_def minInt_def maxInt_def
  by (simp add: two_power_intSize)

lemma wrap_add_left: "wrap (wrap a + b) = wrap (a + b)"
proof -
  have "wrap a + b + 2 ^ (intSize - 1) = (a + 2 ^ (intSize - 1)) mod 2 ^ intSize + b"
    by (simp add: wrap_def)
  then have "(wrap a + b + 2 ^ (intSize - 1)) mod 2 ^ intSize
          = ((a + 2 ^ (intSize - 1)) mod 2 ^ intSize + b) mod 2 ^ intSize"
    by (simp only:)
  also have "\<dots> = (a + 2 ^ (intSize - 1) + b) mod 2 ^ intSize"
    by (rule mod_add_left_eq)
  also have "a + 2 ^ (intSize - 1) + b = a + b + 2 ^ (intSize - 1)"
    by simp
  finally show ?thesis
    unfolding wrap_def [of "wrap a + b"] wrap_def [of "a + b"] by simp
qed

lemma maxInt_large: "2 ^ 31 \<le> maxInt"
  by (simp add: maxInt_def intSize_def)

lemma minInt_maxInt: "minInt = - maxInt - 1"
  by (simp add: minInt_def maxInt_def)

lemma minInt_le_0: "minInt \<le> 0"
  by (simp add: minInt_def)

lemma wrap_small [simp]: "0 \<le> x \<Longrightarrow> x \<le> maxInt \<Longrightarrow> wrap x = x"
  using minInt_le_0 by (intro wrap_id) simp_all

lemma wrap_wrap [simp]: "wrap (wrap a) = wrap a"
  using wrap_add_left [of a 0] by simp

lemma wrap_add_right: "wrap (a + wrap b) = wrap (a + b)"
  using wrap_add_left [of b a] by (simp add: add.commute)

lemma maxInt_numeral [simp]: "(2::int) \<le> maxInt" "(1::int) \<le> maxInt" "(0::int) \<le> maxInt"
  using maxInt_large by simp_all

section \<open>What every turn of the loop keeps\<close>



lemma within_refl [simp]: "within L L"
  by (simp add: within_def)

lemma within_trans: "within A B \<Longrightarrow> within B C \<Longrightarrow> within A C"
proof -
  assume ab: "within A B" and bc: "within B C"
  from ab obtain s where s: "tokenLiteral B = tokenLiteral A @ s"
    unfolding within_def by blast
  from bc obtain t where t: "tokenLiteral C = tokenLiteral B @ t"
    unfolding within_def by blast
  have "tokenLiteral C = tokenLiteral A @ (s @ t)"
    by (simp add: s t)
  then have "\<exists>u. tokenLiteral C = tokenLiteral A @ u" ..
  moreover have "tokenStart C = tokenStart A" "tokenStream C = tokenStream A"
      "panicked C = panicked A" "insertSemi C = insertSemi A"
      "closed_at_eof A \<longrightarrow> closed_at_eof C"
      "\<not> closed A \<and> ReadFailure \<notin> set (source A) \<longrightarrow> \<not> closed C \<and> ReadFailure \<notin> set (source C)"
    using ab bc unfolding within_def by simp_all
  ultimately show ?thesis
    unfolding within_def by simp
qed

lemma within_raiseAt [simp]: "within L (raiseAt p e L)"
  by (simp add: within_def raiseAt_def closed_at_eof_def)

lemma within_raise [simp]: "within L (raise e L)"
  by (simp add: raise_def)

lemma within_raiseAtTop [simp]: "within L (raiseAtTop e L)"
  by (simp add: raiseAtTop_def)

lemma readRune_loop_frame:
  "readRune_loop first xs L = (r, L') \<Longrightarrow> \<not> closed L \<Longrightarrow>
     tokenStart L' = tokenStart L \<and> tokenStream L' = tokenStream L \<and> tokenEnd L' = tokenEnd L
     \<and> panicked L' = panicked L \<and> insertSemi L' = insertSemi L
     \<and> tokenLiteral L' = tokenLiteral L \<and> (closed L' \<longrightarrow> r = eof)
     \<and> set (source L') \<subseteq> set xs
     \<and> (ReadFailure \<notin> set xs \<longrightarrow> \<not> closed L')
     \<and> (Read eof \<notin> set xs \<longrightarrow> r = eof \<longrightarrow> closed L' \<or> source L' = [])"
proof (induction first xs L arbitrary: r L' rule: readRune_loop.induct)
  case (1 first L)
  then show ?case by auto
next
  case (2 first rest L)
  from "2.prems" have "readRune_loop first rest (raise ErrIllegalUTF8 L) = (r, L')" by simp
  moreover have "\<not> closed (raise ErrIllegalUTF8 L)"
    using "2.prems" by (simp add: raise_def raiseAt_def)
  ultimately have "tokenStart L' = tokenStart (raise ErrIllegalUTF8 L)
     \<and> tokenStream L' = tokenStream (raise ErrIllegalUTF8 L)
     \<and> tokenEnd L' = tokenEnd (raise ErrIllegalUTF8 L)
     \<and> panicked L' = panicked (raise ErrIllegalUTF8 L)
     \<and> insertSemi L' = insertSemi (raise ErrIllegalUTF8 L)
     \<and> tokenLiteral L' = tokenLiteral (raise ErrIllegalUTF8 L) \<and> (closed L' \<longrightarrow> r = eof)
     \<and> set (source L') \<subseteq> set rest
     \<and> (ReadFailure \<notin> set rest \<longrightarrow> \<not> closed L')
     \<and> (Read eof \<notin> set rest \<longrightarrow> r = eof \<longrightarrow> closed L' \<or> source L' = [])"
    by (rule "2.IH")
  then show ?case
    by (auto simp: raise_def raiseAt_def)
next
  case (3 first rest L)
  then show ?case by (auto simp: raise_def raiseAt_def close_def)
next
  case (4 first char rest L)
  show ?case
  proof (cases "char = bom")
    case True
    let ?M = "if \<not> first then raise ErrIllegalBOM L else L"
    from "4.prems" True have "readRune_loop False rest ?M = (r, L')" by simp
    moreover have "\<not> closed ?M"
      using "4.prems" by (simp add: raise_def raiseAt_def)
    ultimately have "tokenStart L' = tokenStart ?M
     \<and> tokenStream L' = tokenStream ?M \<and> tokenEnd L' = tokenEnd ?M
     \<and> panicked L' = panicked ?M \<and> insertSemi L' = insertSemi ?M
     \<and> tokenLiteral L' = tokenLiteral ?M \<and> (closed L' \<longrightarrow> r = eof)
     \<and> set (source L') \<subseteq> set rest
     \<and> (ReadFailure \<notin> set rest \<longrightarrow> \<not> closed L')
     \<and> (Read eof \<notin> set rest \<longrightarrow> r = eof \<longrightarrow> closed L' \<or> source L' = [])"
      by (rule "4.IH" [OF True])
    then show ?thesis
      by (auto simp: raise_def raiseAt_def split: if_splits)
  next
    case False
    with "4.prems" show ?thesis by auto
  qed
qed

lemma readRune_frame:
  "readRune first L = (r, L') \<Longrightarrow>
     tokenStart L' = tokenStart L \<and> tokenStream L' = tokenStream L \<and> tokenEnd L' = tokenEnd L
     \<and> panicked L' = panicked L \<and> insertSemi L' = insertSemi L
     \<and> tokenLiteral L' = tokenLiteral L \<and> (closed L' \<longrightarrow> r = eof)
     \<and> set (source L') \<subseteq> set (source L)
     \<and> (\<not> closed L \<and> ReadFailure \<notin> set (source L) \<longrightarrow> \<not> closed L')
     \<and> (Read eof \<notin> set (source L) \<longrightarrow> r = eof \<longrightarrow> closed L' \<or> source L' = [])"
proof (cases "closed L")
  case True
  assume "readRune first L = (r, L')"
  with True show ?thesis by (auto simp: readRune_def)
next
  case False
  assume "readRune first L = (r, L')"
  with False have "readRune_loop first (source L) L = (r, L')"
    by (simp add: readRune_def)
  from readRune_loop_frame [OF this False] False show ?thesis
    by simp
qed

lemma consume_readRune:
  "consume L = (case readRune False (consumed L) of (r, L4) \<Rightarrow> L4\<lparr>current := r\<rparr>)"
  by (simp add: consume_def consumed_def Let_def)

lemma within_consume [simp]: "within L (consume L)"
proof -
  obtain r L4 where rd: "readRune False (consumed L) = (r, L4)"
    by fastforce
  have c: "consume L = L4\<lparr>current := r\<rparr>"
    by (simp add: consume_readRune rd)
  have "\<exists>s. tokenLiteral (consume L) = tokenLiteral L @ s"
    using readRune_frame [OF rd] by (simp add: c consumed_def)
  moreover have "\<not> closed L \<and> ReadFailure \<notin> set (source L)
      \<longrightarrow> \<not> closed (consume L) \<and> ReadFailure \<notin> set (source (consume L))"
    using readRune_frame [OF rd] by (auto simp: c consumed_def)
  ultimately show ?thesis
    using readRune_frame [OF rd]
    by (simp add: within_def c closed_at_eof_def consumed_def)
qed

lemma within_consumeIdentifier [simp]: "within L (consumeIdentifier U L)"
proof (induction U L rule: consumeIdentifier.induct)
  case (1 U L)
  show ?case
  proof (cases "IsLetter U (current L) \<or> unicode_IsDigit U (current L) \<or> current L = ch CHR ''_''")
    case True
    then have "consumeIdentifier U L = consumeIdentifier U (consume L)"
      by (subst consumeIdentifier.simps) simp
    with "1.IH" [OF True] show ?thesis
      by (metis within_consume within_trans)
  next
    case False
    then show ?thesis by (subst consumeIdentifier.simps) simp
  qed
qed

lemma within_discardWhitespace_loop [simp]: "within L (discardWhitespace_loop U L)"
proof (induction U L rule: discardWhitespace_loop.induct)
  case (1 U L)
  show ?case
  proof (cases "IsSpace U (current L)")
    case True
    then have "discardWhitespace_loop U L = discardWhitespace_loop U (consume L)"
      by (subst discardWhitespace_loop.simps) simp
    with "1.IH" [OF True] show ?thesis
      by (metis within_consume within_trans)
  next
    case False
    then show ?thesis by (subst discardWhitespace_loop.simps) simp
  qed
qed

lemma within_consumeDigits_loop [simp]: "within L (consumeDigits_loop base L)"
proof (induction base L rule: consumeDigits_loop.induct)
  case (1 base L)
  show ?case
  proof (cases "IsDigit (current L) base")
    case True
    then have "consumeDigits_loop base L = consumeDigits_loop base (consume L)"
      by (subst consumeDigits_loop.simps) simp
    with "1.IH" [OF True] show ?thesis
      by (metis within_consume within_trans)
  next
    case False
    then show ?thesis by (subst consumeDigits_loop.simps) simp
  qed
qed

lemma within_consumeDigits [simp]: "within L (consumeDigits base required L)"
  unfolding consumeDigits_def
  by (cases "\<not> IsDigit (current L) base \<and> required")
     (auto intro: within_trans [OF within_raise within_consumeDigits_loop])

lemma within_lexNumber_exponent [simp]: "within L (lexNumber_exponent L)"
  unfolding lexNumber_exponent_def Let_def
  by (auto intro: within_trans [OF within_consume] within_trans [OF within_consume within_trans [OF within_consume]])

lemma within_consume_I: "within L M \<Longrightarrow> within L (consume M)"
  by (rule within_trans [OF _ within_consume])

lemma within_raise_I: "within L M \<Longrightarrow> within L (raise e M)"
  by (rule within_trans [OF _ within_raise])

lemma within_raiseAtTop_I: "within L M \<Longrightarrow> within L (raiseAtTop e M)"
  by (rule within_trans [OF _ within_raiseAtTop])

lemma within_consumeIdentifier_I: "within L M \<Longrightarrow> within L (consumeIdentifier U M)"
  by (rule within_trans [OF _ within_consumeIdentifier])

lemma within_discardWhitespace_loop_I: "within L M \<Longrightarrow> within L (discardWhitespace_loop U M)"
  by (rule within_trans [OF _ within_discardWhitespace_loop])

lemma within_consumeDigits_I: "within L M \<Longrightarrow> within L (consumeDigits base required M)"
  by (rule within_trans [OF _ within_consumeDigits])

lemma within_lexNumber_exponent_I: "within L M \<Longrightarrow> within L (lexNumber_exponent M)"
  by (rule within_trans [OF _ within_lexNumber_exponent])

lemma within_lexNumber_prefix: "within L (snd (snd (lexNumber_prefix L)))"
  unfolding lexNumber_prefix_def Let_def
  by (simp add: within_consume_I)

lemma within_lexNumber_fraction [simp]: "within L (lexNumber_fraction U base L)"
proof -
  define L3 where "L3 = (if current L = ch CHR ''.'' then consumeDigits base True (consume L) else L)"
  have "within L L3"
    unfolding L3_def by (simp add: within_consume_I within_consumeDigits_I)
  then show ?thesis
    unfolding lexNumber_fraction_def Let_def L3_def [symmetric]
    by (simp add: within_raise_I within_lexNumber_exponent_I)
qed

lemma within_lexNumber_consume [simp]: "within L (lexNumber_consume U L)"
proof -
  obtain base cantBe0 L1 where p: "lexNumber_prefix L = (base, cantBe0, L1)"
    by (cases "lexNumber_prefix L") auto
  with within_lexNumber_prefix [of L] have "within L L1" by simp
  then have "within L (consumeDigits base cantBe0 L1)"
    by (rule within_consumeDigits_I)
  then show ?thesis
    unfolding lexNumber_consume_def p Let_def
    by (simp add: within_trans [OF _ within_lexNumber_fraction])
qed

lemma within_consumeEscape_digits:
  "within L (snd (consumeEscape_digits prefix digits i hexDigits L))"
proof (induction i arbitrary: hexDigits L)
  case 0
  show ?case by simp
next
  case (Suc i)
  show ?case
  proof (cases "IsDigit (current L) 16")
    case True
    have "within (consume L) (snd (consumeEscape_digits prefix digits i
            (hexDigits @ string_of_rune (current L)) (consume L)))"
      by (rule Suc.IH)
    then show ?thesis
      using True by (auto intro: within_trans [OF within_consume])
  next
    case False
    then show ?thesis by simp
  qed
qed

lemma within_consumeEscape [simp]: "within L (consumeEscape quote L)"
proof -
  have tail: "within L M \<Longrightarrow>
        within L (case consumeEscape_digits p d i [] M of
                     (None, L4) \<Rightarrow> L4
                   | (Some hexDigits, L4) \<Rightarrow>
                       if \<not> ValidRune (ParseInt hexDigits)
                       then raise (ErrInvalidCodepoint p' hexDigits) L4 else L4)"
    for M p p' d i
    using within_consumeEscape_digits [of M p d i "[]"]
    by (cases "consumeEscape_digits p d i [] M")
       (auto split: option.splits intro: within_trans within_raise_I)
  show ?thesis
    unfolding consumeEscape_def Let_def
    by (auto intro!: tail within_consume_I within_raise_I)
qed

lemma within_consumeRune [simp]: "within L (consumeRune quote L)"
  by (simp add: consumeRune_def)

lemma within_lexRune_loop: "within L (snd (lexRune_loop n L))"
proof (induction n L rule: lexRune_loop.induct)
  case (1 n L)
  show ?case
  proof (cases "current L \<noteq> ch (CHR 0x27) \<and> \<not> (current L = eof \<or> current L = ch (CHR 0x0A))")
    case True
    then have "lexRune_loop n L = lexRune_loop (wrap (n + 1)) (consumeRune (ch (CHR 0x27)) L)"
      by (subst lexRune_loop.simps) simp
    moreover have "within (consumeRune (ch (CHR 0x27)) L)
        (snd (lexRune_loop (wrap (n + 1)) (consumeRune (ch (CHR 0x27)) L)))"
      using True by (intro "1.IH") auto
    ultimately show ?thesis
      using within_trans [OF within_consumeRune] by simp
  next
    case False
    then show ?thesis by (subst lexRune_loop.simps) auto
  qed
qed

lemma lexRune_loop_None:
  "lexRune_loop n L = (None, L') \<Longrightarrow> current L' = eof \<or> current L' = ch (CHR 0x0A)"
proof (induction n L rule: lexRune_loop.induct)
  case (1 n L)
  show ?case
  proof (cases "current L \<noteq> ch (CHR 0x27) \<and> \<not> (current L = eof \<or> current L = ch (CHR 0x0A))")
    case True
    then have "lexRune_loop n L = lexRune_loop (wrap (n + 1)) (consumeRune (ch (CHR 0x27)) L)"
      by (subst lexRune_loop.simps) simp
    with "1.prems" True "1.IH" show ?thesis by auto
  next
    case False
    with "1.prems" show ?thesis
      by (subst (asm) lexRune_loop.simps) (auto simp: raise_def raiseAt_def split: if_splits)
  qed
qed

lemma within_lexString_loop: "within L (snd (lexString_loop L))"
proof (induction L rule: lexString_loop.induct)
  case (1 L)
  show ?case
  proof (cases "current L \<noteq> ch (CHR 0x22) \<and> \<not> (current L = eof \<or> current L = ch (CHR 0x0A))")
    case True
    then have "lexString_loop L = lexString_loop (consumeRune (ch (CHR 0x22)) L)"
      by (subst lexString_loop.simps) simp
    moreover have "within (consumeRune (ch (CHR 0x22)) L)
        (snd (lexString_loop (consumeRune (ch (CHR 0x22)) L)))"
      using True by (intro "1.IH") auto
    ultimately show ?thesis
      using within_trans [OF within_consumeRune] by simp
  next
    case False
    then show ?thesis by (subst lexString_loop.simps) auto
  qed
qed

lemma lexString_loop_False:
  "lexString_loop L = (False, L') \<Longrightarrow> current L' = eof \<or> current L' = ch (CHR 0x0A)"
proof (induction L rule: lexString_loop.induct)
  case (1 L)
  show ?case
  proof (cases "current L \<noteq> ch (CHR 0x22) \<and> \<not> (current L = eof \<or> current L = ch (CHR 0x0A))")
    case True
    then have "lexString_loop L = lexString_loop (consumeRune (ch (CHR 0x22)) L)"
      by (subst lexString_loop.simps) simp
    with "1.prems" True "1.IH" show ?thesis by auto
  next
    case False
    with "1.prems" show ?thesis
      by (subst (asm) lexString_loop.simps) (auto simp: raise_def raiseAt_def split: if_splits)
  qed
qed

lemma within_lexComment_loop [simp]: "within L (lexComment_loop L)"
proof (induction L rule: lexComment_loop.induct)
  case (1 L)
  show ?case
  proof (cases "current L \<noteq> ch (CHR 0x0A) \<and> current L \<noteq> eof")
    case True
    then have "lexComment_loop L = lexComment_loop (consume L)"
      by (subst lexComment_loop.simps) simp
    with "1.IH" True show ?thesis
      using within_trans [OF within_consume] by simp
  next
    case False
    then show ?thesis by (subst lexComment_loop.simps) auto
  qed
qed

lemma within_lexOperator_loop [simp]: "within L (lexOperator_loop L)"
proof (induction L rule: lexOperator_loop.induct)
  case (1 L)
  show ?case
  proof (cases "IsOperator (tokenLiteral L @ string_of_rune (current L))")
    case True
    then have "lexOperator_loop L = lexOperator_loop (consume L)"
      by (subst lexOperator_loop.simps) simp
    with "1.IH" True show ?thesis
      using within_trans [OF within_consume] by simp
  next
    case False
    then show ?thesis by (subst lexOperator_loop.simps) auto
  qed
qed

section \<open>The room left for the positions\<close>

lemma room_raiseAt [simp]: "room N (raiseAt p e L) = room N L"
  by (simp add: room_def placed_def pot_def raiseAt_def)

lemma room_raise [simp]: "room N (raise e L) = room N L"
  by (simp add: raise_def)

lemma room_raiseAtTop [simp]: "room N (raiseAtTop e L) = room N L"
  by (simp add: raiseAtTop_def)

lemma spent_raiseAt [simp]: "spent N (raiseAt p e L) = spent N L"
  by (simp add: spent_def placed_def pot_def raiseAt_def)

lemma good_raise [simp]: "good N (raise e L) = good N L"
  by (simp add: good_def raise_def)

lemma good_raiseAtTop [simp]: "good N (raiseAtTop e L) = good N L"
  by (simp add: good_def raiseAtTop_def)

lemma room_good: "room N L \<Longrightarrow> good N L"
  by (simp add: good_def)

lemma good_not_eof: "good N L \<Longrightarrow> current L \<noteq> eof \<Longrightarrow> room N L"
  by (auto simp: good_def spent_def)

text \<open>One \<^verbatim>\<open>consume\<close>, while the positions fit an \<^verbatim>\<open>int\<close>.\<close>

lemma consume_moves:
  assumes p: "placed L" and fits: "Line (tokenEnd L) + Col (tokenEnd L) < maxInt"
  shows "placed (consume L)"
    and "Line (tokenEnd (consume L)) + Col (tokenEnd (consume L))
           \<le> Line (tokenEnd L) + Col (tokenEnd L) + 1"
proof -
  obtain r L4 where rd: "readRune False (consumed L) = (r, L4)"
    by fastforce
  have c: "consume L = L4\<lparr>current := r\<rparr>"
    by (simp add: consume_readRune rd)
  have ts: "tokenStart (consume L) = tokenStart L"
    using readRune_frame [OF rd] by (simp add: c consumed_def)
  have te: "tokenEnd (consume L) = tokenEnd (consumed L)"
    using readRune_frame [OF rd] by (simp add: c)
  have line: "1 \<le> Line (tokenEnd L)"
    using p by (auto simp: placed_def pos_le_def)
  have col: "1 \<le> Col (tokenEnd L)"
    using p by (simp add: placed_def)
  have wc: "wrap (Col (tokenEnd L) + 1) = Col (tokenEnd L) + 1"
    using line col fits by (intro wrap_small) simp_all
  have wl: "wrap (Line (tokenEnd L) + 1) = Line (tokenEnd L) + 1"
    using line col fits by (intro wrap_small) simp_all
  show "placed (consume L)"
    using p line col
    by (auto simp: placed_def ts te consumed_def NextCharacter_def NextLine_def wc wl pos_le_def)
  show "Line (tokenEnd (consume L)) + Col (tokenEnd (consume L))
           \<le> Line (tokenEnd L) + Col (tokenEnd L) + 1"
    using col by (simp add: te consumed_def NextCharacter_def NextLine_def wc wl)
qed

lemma room_consume:
  assumes r: "room N L" and ne: "current L \<noteq> eof"
  shows "room N (consume L)"
proof -
  have p: "placed L" and n: "N < maxInt" and b: "pot L \<le> N"
    using r by (simp_all add: room_def)
  have fits: "Line (tokenEnd L) + Col (tokenEnd L) < maxInt"
    using b n ne by (simp add: pot_def)
  have len: "2 * int (length (source (consume L))) + (if current (consume L) = eof then 0 else 1)
               \<le> 2 * int (length (source L))"
    using consume_length [of L] by (simp split: if_splits)
  have "pot (consume L) \<le> pot L"
    using consume_moves(2) [OF p fits] len ne by (simp add: pot_def)
  with consume_moves(1) [OF p fits] n b show ?thesis
    by (simp add: room_def)
qed

lemma good_consume:
  assumes r: "room N L"
  shows "good N (consume L)"
proof -
  have p: "placed L" and n: "N < maxInt" and b: "pot L \<le> N"
    using r by (simp_all add: room_def)
  have fits: "Line (tokenEnd L) + Col (tokenEnd L) < maxInt"
    using b n by (simp add: pot_def split: if_splits)
  have pl: "placed (consume L)"
    by (rule consume_moves(1) [OF p fits])
  show ?thesis
  proof (cases "current (consume L) = eof")
    case True
    have "pot (consume L) \<le> pot L + 1"
      using consume_moves(2) [OF p fits] consume_length [of L] True
      by (simp add: pot_def split: if_splits)
    with pl n b True show ?thesis
      by (simp add: good_def spent_def)
  next
    case False
    have "pot (consume L) \<le> pot L"
      using consume_moves(2) [OF p fits] consume_length [of L] False
      by (simp add: pot_def split: if_splits)
    with pl n b show ?thesis
      by (simp add: good_def room_def)
  qed
qed

lemma room_consumeIdentifier: "room N L \<Longrightarrow> room N (consumeIdentifier U L)"
proof (induction U L rule: consumeIdentifier.induct)
  case (1 U L)
  show ?case
  proof (cases "IsLetter U (current L) \<or> unicode_IsDigit U (current L) \<or> current L = ch CHR ''_''")
    case True
    then have ne: "current L \<noteq> eof"
      by (auto dest: IsLetter_not_eof unicode_IsDigit_not_eof simp: eof_def ch_def)
    have "consumeIdentifier U L = consumeIdentifier U (consume L)"
      using True by (subst consumeIdentifier.simps) simp
    with "1.IH" [OF True room_consume [OF "1.prems" ne]] show ?thesis
      by simp
  next
    case False
    with "1.prems" show ?thesis by (subst consumeIdentifier.simps) simp
  qed
qed

lemma room_discardWhitespace_loop: "room N L \<Longrightarrow> room N (discardWhitespace_loop U L)"
proof (induction U L rule: discardWhitespace_loop.induct)
  case (1 U L)
  show ?case
  proof (cases "IsSpace U (current L)")
    case True
    then have ne: "current L \<noteq> eof"
      by (rule IsSpace_not_eof)
    have "discardWhitespace_loop U L = discardWhitespace_loop U (consume L)"
      using True by (subst discardWhitespace_loop.simps) simp
    with "1.IH" [OF True room_consume [OF "1.prems" ne]] show ?thesis
      by simp
  next
    case False
    with "1.prems" show ?thesis by (subst discardWhitespace_loop.simps) simp
  qed
qed

lemma room_consumeDigits_loop: "room N L \<Longrightarrow> room N (consumeDigits_loop base L)"
proof (induction base L rule: consumeDigits_loop.induct)
  case (1 base L)
  show ?case
  proof (cases "IsDigit (current L) base")
    case True
    then have ne: "current L \<noteq> eof"
      by (rule IsDigit_not_eof)
    have "consumeDigits_loop base L = consumeDigits_loop base (consume L)"
      using True by (subst consumeDigits_loop.simps) simp
    with "1.IH" [OF True room_consume [OF "1.prems" ne]] show ?thesis
      by simp
  next
    case False
    with "1.prems" show ?thesis by (subst consumeDigits_loop.simps) simp
  qed
qed

lemma room_consumeDigits: "room N L \<Longrightarrow> room N (consumeDigits base required L)"
  unfolding consumeDigits_def by (simp add: room_consumeDigits_loop)

lemma room_lexNumber_exponent:
  assumes r: "room N L" and ne: "current L \<noteq> eof"
  shows "room N (lexNumber_exponent L)"
proof -
  have 1: "room N (consume L)"
    using r ne by (rule room_consume)
  have 2: "room N (consume (consume L))"
    if "current (consume L) = ch CHR ''+'' \<or> current (consume L) = ch CHR ''-''"
    using that by (intro room_consume 1) (auto simp: eof_def ch_def)
  show ?thesis
    unfolding lexNumber_exponent_def Let_def
    using 1 2 by (simp add: room_consumeDigits)
qed

lemma room_lexNumber_prefix:
  assumes r: "room N L"
  shows "room N (snd (snd (lexNumber_prefix L)))"
proof (cases "current L = ch CHR ''0''")
  case True
  then have 1: "room N (consume L)"
    by (intro room_consume r) (simp add: eof_def ch_def)
  have 2: "room N (consume (consume L))" if "current (consume L) \<noteq> eof"
    using 1 that by (rule room_consume)
  show ?thesis
    unfolding lexNumber_prefix_def Let_def
    using True 1 2 by (simp add: eof_def ch_def)
next
  case False
  with r show ?thesis
    by (simp add: lexNumber_prefix_def)
qed

lemma ToLower_eof: "ToLower U eof = eof"
  by (simp add: ToLower_def eof_def MaxASCII_def ch_def)

lemma room_lexNumber_fraction:
  assumes r: "room N L"
  shows "room N (lexNumber_fraction U base L)"
proof -
  define L3 where "L3 = (if current L = ch CHR ''.'' then consumeDigits base True (consume L) else L)"
  have "room N (consumeDigits base True (consume L))" if "current L = ch CHR ''.''"
    using that by (intro room_consumeDigits room_consume r) (simp add: eof_def ch_def)
  then have 3: "room N L3"
    using r by (simp add: L3_def)
  have ne: "current L3 \<noteq> eof" if "ToLower U (current L3) = ch CHR ''p'' \<or> ToLower U (current L3) = ch CHR ''e''"
    using that ToLower_eof [of U] by (auto simp: eof_def ch_def)
  have 4: "room N (lexNumber_exponent L3)"
    if "ToLower U (current L3) = ch CHR ''p'' \<or> ToLower U (current L3) = ch CHR ''e''"
    using 3 ne [OF that] by (rule room_lexNumber_exponent)
  have 5: "room N (lexNumber_exponent (raise e L3))"
    if "ToLower U (current L3) = ch CHR ''p''" for e
  proof (rule room_lexNumber_exponent)
    show "room N (raise e L3)"
      using 3 by simp
    show "current (raise e L3) \<noteq> eof"
      using ne that by (simp add: raise_def raiseAt_def)
  qed
  show ?thesis
    unfolding lexNumber_fraction_def Let_def L3_def [symmetric]
    using 3 4 5 by simp
qed

lemma room_lexNumber_consume:
  assumes r: "room N L"
  shows "room N (lexNumber_consume U L)"
proof -
  obtain base cantBe0 L1 where p: "lexNumber_prefix L = (base, cantBe0, L1)"
    by (cases "lexNumber_prefix L") auto
  with room_lexNumber_prefix [OF r] have "room N L1" by simp
  then have "room N (consumeDigits base cantBe0 L1)"
    by (rule room_consumeDigits)
  then show ?thesis
    unfolding lexNumber_consume_def p Let_def
    by (simp add: room_lexNumber_fraction)
qed

lemma room_consumeEscape_digits:
  "room N L \<Longrightarrow> room N (snd (consumeEscape_digits prefix digits i hexDigits L))"
proof (induction i arbitrary: hexDigits L)
  case 0
  then show ?case by simp
next
  case (Suc i)
  show ?case
  proof (cases "IsDigit (current L) 16")
    case True
    then have "current L \<noteq> eof"
      by (rule IsDigit_not_eof)
    with Suc.prems have "room N (consume L)"
      by (rule room_consume)
    from Suc.IH [OF this] True show ?thesis
      by simp
  next
    case False
    with Suc.prems show ?thesis by simp
  qed
qed

lemma good_consumeEscape:
  assumes r: "room N L" and ne: "current L \<noteq> eof"
  shows "good N (consumeEscape quote L)"
proof -
  define L1 where "L1 = consume L"
  have 1: "room N L1"
    unfolding L1_def using r ne by (rule room_consume)
  have tail: "room N M \<Longrightarrow>
        good N (case consumeEscape_digits p d i [] M of
                     (None, L4) \<Rightarrow> L4
                   | (Some hexDigits, L4) \<Rightarrow>
                       if \<not> ValidRune (ParseInt hexDigits)
                       then raise (ErrInvalidCodepoint p' hexDigits) L4 else L4)"
    for M p p' d i
    using room_consumeEscape_digits [of N M p d i "[]"]
    by (cases "consumeEscape_digits p d i [] M") (auto split: option.splits intro: room_good)
  have digits: "room N (consume L1)" if "current L1 \<noteq> eof"
    using 1 that by (rule room_consume)
  have plain: "good N (consume L1)"
    using 1 by (rule good_consume)
  have illegal: "good N (consume (raise e L1))" for e
    by (rule good_consume) (simp add: 1)
  have x: "ch CHR ''x'' \<noteq> eof" "ch CHR ''u'' \<noteq> eof" "ch CHR ''U'' \<noteq> eof"
    by (simp_all add: eof_def ch_def)
  show ?thesis
    unfolding consumeEscape_def Let_def L1_def [symmetric]
    using plain illegal tail [OF digits] x
    by (simp split: if_splits)
qed

lemma good_consumeRune:
  "room N L \<Longrightarrow> current L \<noteq> eof \<Longrightarrow> good N (consumeRune quote L)"
  by (simp add: consumeRune_def good_consumeEscape good_consume)

lemma lexRune_loop_eof:
  "current L = eof \<Longrightarrow> lexRune_loop n L = (None, raise ErrUnclosedRuneLit L)"
  by (subst lexRune_loop.simps) (simp add: eof_def ch_def)

lemma lexString_loop_eof:
  "current L = eof \<Longrightarrow> lexString_loop L = (False, raise ErrUnclosedStringLit L)"
  by (subst lexString_loop.simps) (simp add: eof_def ch_def)

lemma good_lexRune_loop: "room N L \<Longrightarrow> good N (snd (lexRune_loop n L))"
proof (induction n L rule: lexRune_loop.induct)
  case (1 n L)
  show ?case
  proof (cases "current L \<noteq> ch (CHR 0x27) \<and> \<not> (current L = eof \<or> current L = ch (CHR 0x0A))")
    case True
    define M where "M = consumeRune (ch (CHR 0x27)) L"
    have step: "lexRune_loop n L = lexRune_loop (wrap (n + 1)) M"
      unfolding M_def using True by (subst lexRune_loop.simps) simp
    have g: "good N M"
      unfolding M_def using "1.prems" True by (intro good_consumeRune) simp_all
    show ?thesis
    proof (cases "room N M")
      case True
      have "good N (snd (lexRune_loop (wrap (n + 1)) M))"
        unfolding M_def using \<open>current L \<noteq> ch (CHR 0x27) \<and> \<not> (current L = eof \<or> current L = ch (CHR 0x0A))\<close> True
        by (intro "1.IH") (simp_all add: M_def)
      then show ?thesis
        by (simp add: step)
    next
      case False
      with g have s: "spent N M"
        by (simp add: good_def)
      then have "current M = eof"
        by (simp add: spent_def)
      then have "lexRune_loop (wrap (n + 1)) M = (None, raise ErrUnclosedRuneLit M)"
        by (rule lexRune_loop_eof)
      with s show ?thesis
        by (simp add: step good_def raise_def)
    qed
  next
    case False
    with "1.prems" show ?thesis
      by (subst lexRune_loop.simps) (auto intro: room_good)
  qed
qed

lemma lexRune_loop_Some:
  "lexRune_loop n L = (Some c, L') \<Longrightarrow> current L' = ch (CHR 0x27)"
proof (induction n L rule: lexRune_loop.induct)
  case (1 n L)
  show ?case
  proof (cases "current L \<noteq> ch (CHR 0x27) \<and> \<not> (current L = eof \<or> current L = ch (CHR 0x0A))")
    case True
    then have "lexRune_loop n L = lexRune_loop (wrap (n + 1)) (consumeRune (ch (CHR 0x27)) L)"
      by (subst lexRune_loop.simps) simp
    with "1.prems" True "1.IH" show ?thesis by auto
  next
    case False
    with "1.prems" show ?thesis
      by (subst (asm) lexRune_loop.simps) (auto split: if_splits)
  qed
qed

lemma good_lexString_loop: "room N L \<Longrightarrow> good N (snd (lexString_loop L))"
proof (induction L rule: lexString_loop.induct)
  case (1 L)
  show ?case
  proof (cases "current L \<noteq> ch (CHR 0x22) \<and> \<not> (current L = eof \<or> current L = ch (CHR 0x0A))")
    case True
    define M where "M = consumeRune (ch (CHR 0x22)) L"
    have step: "lexString_loop L = lexString_loop M"
      unfolding M_def using True by (subst lexString_loop.simps) simp
    have g: "good N M"
      unfolding M_def using "1.prems" True by (intro good_consumeRune) simp_all
    show ?thesis
    proof (cases "room N M")
      case True
      have "good N (snd (lexString_loop M))"
        unfolding M_def using \<open>current L \<noteq> ch (CHR 0x22) \<and> \<not> (current L = eof \<or> current L = ch (CHR 0x0A))\<close> True
        by (intro "1.IH") (simp_all add: M_def)
      then show ?thesis
        by (simp add: step)
    next
      case False
      with g have s: "spent N M"
        by (simp add: good_def)
      then have "current M = eof"
        by (simp add: spent_def)
      then have "lexString_loop M = (False, raise ErrUnclosedStringLit M)"
        by (rule lexString_loop_eof)
      with s show ?thesis
        by (simp add: step good_def raise_def)
    qed
  next
    case False
    with "1.prems" show ?thesis
      by (subst lexString_loop.simps) (auto intro: room_good)
  qed
qed

lemma lexString_loop_True:
  "lexString_loop L = (True, L') \<Longrightarrow> current L' = ch (CHR 0x22)"
proof (induction L rule: lexString_loop.induct)
  case (1 L)
  show ?case
  proof (cases "current L \<noteq> ch (CHR 0x22) \<and> \<not> (current L = eof \<or> current L = ch (CHR 0x0A))")
    case True
    then have "lexString_loop L = lexString_loop (consumeRune (ch (CHR 0x22)) L)"
      by (subst lexString_loop.simps) simp
    with "1.prems" True "1.IH" show ?thesis by auto
  next
    case False
    with "1.prems" show ?thesis
      by (subst (asm) lexString_loop.simps) (auto split: if_splits)
  qed
qed

lemma room_lexComment_loop: "room N L \<Longrightarrow> room N (lexComment_loop L)"
proof (induction L rule: lexComment_loop.induct)
  case (1 L)
  show ?case
  proof (cases "current L \<noteq> ch (CHR 0x0A) \<and> current L \<noteq> eof")
    case True
    then have "lexComment_loop L = lexComment_loop (consume L)"
      by (subst lexComment_loop.simps) simp
    with "1.IH" [OF True room_consume [OF "1.prems"]] True show ?thesis
      by simp
  next
    case False
    with "1.prems" show ?thesis by (subst lexComment_loop.simps) auto
  qed
qed

lemma room_lexOperator_loop: "room N L \<Longrightarrow> room N (lexOperator_loop L)"
proof (induction L rule: lexOperator_loop.induct)
  case (1 L)
  show ?case
  proof (cases "IsOperator (tokenLiteral L @ string_of_rune (current L))")
    case True
    then have ne: "current L \<noteq> eof"
      using IsOperator_eof by auto
    have "lexOperator_loop L = lexOperator_loop (consume L)"
      using True by (subst lexOperator_loop.simps) simp
    with "1.IH" [OF True room_consume [OF "1.prems" ne]] show ?thesis
      by simp
  next
    case False
    with "1.prems" show ?thesis by (subst lexOperator_loop.simps) auto
  qed
qed

section \<open>One turn of the loop\<close>

lemma good_lexRune_loop_good: "good N L \<Longrightarrow> good N (snd (lexRune_loop n L))"
proof (cases "room N L")
  case True
  then show ?thesis by (rule good_lexRune_loop)
next
  case False
  assume "good N L"
  with False have s: "spent N L"
    by (simp add: good_def)
  then have "lexRune_loop n L = (None, raise ErrUnclosedRuneLit L)"
    by (intro lexRune_loop_eof) (simp add: spent_def)
  with s show ?thesis
    by (simp add: good_def raise_def)
qed

lemma good_lexString_loop_good: "good N L \<Longrightarrow> good N (snd (lexString_loop L))"
proof (cases "room N L")
  case True
  then show ?thesis by (rule good_lexString_loop)
next
  case False
  assume "good N L"
  with False have s: "spent N L"
    by (simp add: good_def)
  then have "lexString_loop L = (False, raise ErrUnclosedStringLit L)"
    by (intro lexString_loop_eof) (simp add: spent_def)
  with s show ?thesis
    by (simp add: good_def raise_def)
qed

lemma turn_emit:
  "within L M \<Longrightarrow> (room N L \<Longrightarrow> good N M) \<Longrightarrow> turn N L (emit tokenType M)"
  unfolding turn_def by blast

lemma turn_discard: "within L M \<Longrightarrow> (room N L \<Longrightarrow> good N M) \<Longrightarrow> turn N L (discard M)"
  unfolding turn_def by blast

lemma turn_stop:
  "within L M \<Longrightarrow> (room N L \<Longrightarrow> good N M) \<Longrightarrow> current M = eof \<or> current M = ch (CHR 0x0A) \<Longrightarrow>
     turn N L M"
  unfolding turn_def by blast

lemma turn_close: "current L = eof \<Longrightarrow> turn N L (close L)"
  unfolding turn_def by (intro exI [of _ L]) (simp add: room_good)

lemma turn_lexRune: "turn N L (lexRune L)"
proof -
  obtain res L1 where Pair: "lexRune_loop 0 (consume L) = (res, L1)"
    by fastforce
  have w: "within L L1"
    using within_lexRune_loop [of "consume L" 0] Pair
    by (auto intro: within_trans [OF within_consume])
  have g: "good N L1" if "room N L"
    using good_lexRune_loop_good [OF good_consume [OF that], of 0] Pair by simp
  show ?thesis
  proof (cases res)
    case None
    have "current L1 = eof \<or> current L1 = ch (CHR 0x0A)"
      using Pair None by (auto dest: lexRune_loop_None)
    with w g have "turn N L L1"
      by (rule turn_stop)
    then show ?thesis
      using Pair None by (simp add: lexRune_def)
  next
    case (Some charsConsumed)
    have q: "current L1 = ch (CHR 0x27)"
      using Pair Some by (auto dest: lexRune_loop_Some)
    have g2: "good N (consume L1)" if "room N L"
    proof -
      have "room N L1"
        using g [OF that] q by (intro good_not_eof) (simp_all add: eof_def ch_def)
      then show ?thesis
        by (rule good_consume)
    qed
    have w2: "within L (consume L1)"
      using w by (rule within_consume_I)
    have "turn N L (emit Rune (raiseAtTop e (consume L1)))" for e
      by (rule turn_emit) (simp_all add: within_raiseAtTop_I w2 g2)
    moreover have "turn N L (emit Rune (consume L1))"
      by (rule turn_emit) (simp_all add: w2 g2)
    ultimately show ?thesis
      using Pair Some by (simp add: lexRune_def Let_def)
  qed
qed

lemma turn_lexString: "turn N L (lexString L)"
proof -
  obtain ok L1 where Pair: "lexString_loop (consume L) = (ok, L1)"
    by fastforce
  have w: "within L L1"
    using within_lexString_loop [of "consume L"] Pair
    by (auto intro: within_trans [OF within_consume])
  have g: "good N L1" if "room N L"
    using good_lexString_loop_good [OF good_consume [OF that]] Pair by simp
  show ?thesis
  proof (cases ok)
    case False
    have "current L1 = eof \<or> current L1 = ch (CHR 0x0A)"
      using Pair False by (auto dest: lexString_loop_False)
    with w g have "turn N L L1"
      by (rule turn_stop)
    then show ?thesis
      using Pair False by (simp add: lexString_def)
  next
    case True
    have q: "current L1 = ch (CHR 0x22)"
      using Pair True by (auto dest: lexString_loop_True)
    have g2: "good N (consume L1)" if "room N L"
    proof -
      have "room N L1"
        using g [OF that] q by (intro good_not_eof) (simp_all add: eof_def ch_def)
      then show ?thesis
        by (rule good_consume)
    qed
    have "turn N L (emit String (consume L1))"
      by (rule turn_emit) (simp_all add: within_consume_I w g2)
    then show ?thesis
      using Pair True by (simp add: lexString_def)
  qed
qed

lemma turn_lex_body: "turn N L (snd (lex_body U L))"
proof -
  have 1: "turn N L (lexIdentifier U L)"
    unfolding lexIdentifier_def Let_def
    by (rule turn_emit) (simp_all add: room_consumeIdentifier room_good)
  have 2: "turn N L (emit Underscore (consume L))"
    by (rule turn_emit) (simp_all add: good_consume)
  have 3: "turn N L (emit Identifier (consume (consumeIdentifier U (consume L))))"
    if "current L = ch (CHR 0x5C)"
  proof (rule turn_emit)
    show "within L (consume (consumeIdentifier U (consume L)))"
      by (intro within_consume_I within_consumeIdentifier_I) simp
    assume "room N L"
    then have "room N (consume L)"
      using that by (intro room_consume) (simp_all add: eof_def ch_def)
    then have "room N (consumeIdentifier U (consume L))"
      by (rule room_consumeIdentifier)
    then show "good N (consume (consumeIdentifier U (consume L)))"
      by (rule good_consume)
  qed
  have 4: "turn N L (lexNumber U L)"
    unfolding lexNumber_def
    by (rule turn_emit) (simp_all add: room_lexNumber_consume room_good)
  have 7: "turn N L (lexOperator L)"
    unfolding lexOperator_def Let_def
    by (rule turn_emit) (simp_all add: room_lexOperator_loop room_good)
  have 8: "turn N L (lexComment L)"
    unfolding lexComment_def
    by (rule turn_emit) (simp_all add: room_lexComment_loop room_good)
  have 9: "turn N L (emit Semicolon L)"
    by (rule turn_emit) (simp_all add: room_good)
  have 10: "turn N L (discardWhitespace U L)"
    unfolding discardWhitespace_def
    by (rule turn_discard) (simp_all add: room_discardWhitespace_loop room_good)
  have 11: "current L = eof \<Longrightarrow> turn N L (close L)"
    by (rule turn_close)
  have 12: "turn N L (emit Illegal (consume (raise (ErrUnexpectedRune (current L)) L)))"
  proof (rule turn_emit)
    show "within L (consume (raise (ErrUnexpectedRune (current L)) L))"
      by (intro within_consume_I within_raise_I) simp
    assume "room N L"
    then show "good N (consume (raise (ErrUnexpectedRune (current L)) L))"
      by (intro good_consume) simp
  qed
  show ?thesis
    unfolding lex_body_def again_def
    by (simp add: 1 2 3 4 turn_lexRune turn_lexString 7 8 9 10 11 12)
qed

lemma lexer_inv_turn: "lexer_inv L \<Longrightarrow> turn N L L' \<Longrightarrow> lexer_inv L'"
proof -
  assume inv: "lexer_inv L" and t: "turn N L L'"
  from t obtain M where w: "within L M"
    and cases: "(\<exists>tokenType. L' = emit tokenType M) \<or> L' = discard M
         \<or> (L' = M \<and> (current M = eof \<or> current M = ch (CHR 0x0A)))
         \<or> (L' = close M \<and> current M = eof)"
    unfolding turn_def by blast
  have ceM: "closed_at_eof M"
    using inv w by (auto simp: lexer_inv_def within_def)
  from cases consider
      (emitted) tokenType where "L' = emit tokenType M"
    | (discarded) "L' = discard M"
    | (stopped) "L' = M" "current M = eof \<or> current M = ch (CHR 0x0A)"
    | (closing) "L' = close M" "current M = eof"
    by blast
  then show ?thesis
  proof cases
    case emitted
    then have L': "L' = emit tokenType M" .
    have "closed_at_eof L'"
      using ceM by (auto simp: L' emit_def Let_def discard_def closed_at_eof_def)
    moreover have "settled L'"
      by (auto simp: L' emit_def Let_def discard_def settled_def)
    ultimately show ?thesis
      by (simp add: lexer_inv_def)
  next
    case discarded
    then have L': "L' = discard M" .
    have "closed_at_eof L'"
      using ceM by (auto simp: L' discard_def closed_at_eof_def)
    moreover have "settled L'"
      by (auto simp: L' discard_def settled_def)
    ultimately show ?thesis
      by (simp add: lexer_inv_def)
  next
    case stopped
    then show ?thesis
      using ceM by (auto simp: lexer_inv_def settled_def)
  next
    case closing
    then show ?thesis
      by (auto simp: lexer_inv_def settled_def closed_at_eof_def close_def)
  qed
qed








lemma lexer_inv_Lex: "lexer_inv (Lex src)"
proof -
  define L0 where "L0 = \<lparr>source = src, current = 0, tokenStream = [], closed = False, Errors = 0,
               handled = [], insertSemi = False, tokenStart = Origin, tokenEnd = Origin,
               tokenLiteral = [], panicked = False\<rparr>"
  obtain r L' where rd: "readRune True L0 = (r, L')"
    by fastforce
  have "Lex src = L'\<lparr>current := r\<rparr>"
    by (simp add: Lex_def L0_def [symmetric] rd)
  then show ?thesis
    using readRune_frame [OF rd]
    by (simp add: lexer_inv_def closed_at_eof_def settled_def L0_def)
qed

lemma lexer_inv_lex_loop:
  "lexer_inv L \<Longrightarrow> lexer_inv (snd (lex_loop U n L))"
proof (induction n arbitrary: L)
  case 0
  then show ?case by simp
next
  case (Suc n)
  obtain b L' where body: "lex_body U L = (b, L')"
    by fastforce
  have "lexer_inv L'"
    using lexer_inv_turn [OF Suc.prems turn_lex_body [of 0 L U]] body by simp
  then show ?case
    using Suc.IH [of L'] body by (cases b) simp_all
qed

lemma not_panicked_lex_loop:
  "lex_loop U n L = (False, L') \<Longrightarrow> \<not> panicked L \<Longrightarrow> \<not> panicked L'"
proof (induction n arbitrary: L)
  case 0
  then show ?case by simp
next
  case (Suc n)
  obtain b M where body: "lex_body U L = (b, M)"
    by fastforce
  show ?case
  proof (cases b)
    case True
    have "\<not> panicked M"
      using body True unfolding lex_body_def again_def
      by (auto split: if_splits)
    with Suc.IH [of M] Suc.prems body True show ?thesis by simp
  next
    case False
    with Suc.prems body show ?thesis by simp
  qed
qed

lemma consume_Read:
  "\<not> closed L \<Longrightarrow> source L = Read c # rest \<Longrightarrow> c \<noteq> bom \<Longrightarrow>
     consume L = (consumed L)\<lparr>source := rest, current := c\<rparr>"
  by (simp add: consume_readRune readRune_def consumed_def)

lemma consume_Nil:
  "\<not> closed L \<Longrightarrow> source L = [] \<Longrightarrow> consume L = (consumed L)\<lparr>source := [], current := eof\<rparr>"
  by (simp add: consume_readRune readRune_def consumed_def)

lemma loop_head:
  assumes "lex_loop U n (Lex src) = (False, L)"
  shows "lexer_inv L" and "\<not> panicked L"
proof -
  show "lexer_inv L"
    using lexer_inv_lex_loop [OF lexer_inv_Lex, of U n src] assms by simp
  have "\<not> panicked (Lex src)"
  proof -
    define L0 where "L0 = \<lparr>source = src, current = 0, tokenStream = [], closed = False, Errors = 0,
               handled = [], insertSemi = False, tokenStart = Origin, tokenEnd = Origin,
               tokenLiteral = [], panicked = False\<rparr>"
    obtain r L' where rd: "readRune True L0 = (r, L')"
      by fastforce
    have "Lex src = L'\<lparr>current := r\<rparr>"
      by (simp add: Lex_def L0_def [symmetric] rd)
    then show ?thesis
      using readRune_frame [OF rd] by (simp add: L0_def)
  qed
  with assms show "\<not> panicked L"
    by (rule not_panicked_lex_loop)
qed

lemma IsOperator_eof_single: "\<not> IsOperator (string_of_rune eof)"
  using IsOperator_eof [of "[]"] by simp


lemma lexString_loop_unterminated:
  "\<not> closed M \<Longrightarrow> wrap (Col (tokenEnd M)) = Col (tokenEnd M) \<Longrightarrow>
   (case chars of [] \<Rightarrow> current M = eof \<and> source M = []
              | x # xs \<Rightarrow> current M = x \<and> source M = map Read xs) \<Longrightarrow>
   \<forall>r \<in> set chars. r \<noteq> ch (CHR 0x22) \<and> r \<noteq> ch (CHR 0x5C) \<and> r \<noteq> ch (CHR 0x0A) \<and> r \<noteq> bom \<and> r \<noteq> eof \<Longrightarrow>
   \<exists>M'. lexString_loop M = (False, M')
       \<and> tokenStream M' = tokenStream M
       \<and> handled M' = handled M @
           [\<lparr>pos = (tokenEnd M)\<lparr>Col := wrap (Col (tokenEnd M) + int (length chars))\<rparr>,
             err = ErrUnclosedStringLit\<rparr>]
       \<and> Errors M' = wrap (Errors M + 1) \<and> \<not> closed M' \<and> current M' = eof
       \<and> tokenStart M' = tokenStart M \<and> panicked M' = panicked M"
proof (induction chars arbitrary: M)
  case Nil
  then have "lexString_loop M = (False, raise ErrUnclosedStringLit M)"
    by (subst lexString_loop.simps) (simp add: eof_def ch_def)
  with Nil show ?case
    by (simp add: raise_def raiseAt_def)
next
  case (Cons x xs)
  have cur: "current M = x" and src: "source M = map Read xs"
    using Cons.prems(3) by simp_all
  have x: "x \<noteq> ch (CHR 0x22)" "x \<noteq> ch (CHR 0x5C)" "x \<noteq> ch (CHR 0x0A)" "x \<noteq> eof"
    using Cons.prems(4) by simp_all
  have cr: "consumeRune (ch (CHR 0x22)) M = consume M"
    using x cur by (simp add: consumeRune_def)
  have step: "lexString_loop M = lexString_loop (consume M)"
    using x cur cr by (subst lexString_loop.simps) simp
  have cm: "consume M = (consumed M)\<lparr>source := map Read (tl xs),
              current := (case xs of [] \<Rightarrow> eof | y # ys \<Rightarrow> y)\<rparr>"
  proof (cases xs)
    case Nil
    with src Cons.prems(1) show ?thesis by (simp add: consume_Nil)
  next
    case (Cons y ys)
    with Cons.prems(4) have "y \<noteq> bom" by simp
    with Cons src Cons.prems(1) show ?thesis by (simp add: consume_Read)
  qed
  have "\<exists>M'. lexString_loop (consume M) = (False, M')
       \<and> tokenStream M' = tokenStream (consume M)
       \<and> handled M' = handled (consume M) @
           [\<lparr>pos = (tokenEnd (consume M))\<lparr>Col := wrap (Col (tokenEnd (consume M)) + int (length xs))\<rparr>,
             err = ErrUnclosedStringLit\<rparr>]
       \<and> Errors M' = wrap (Errors (consume M) + 1) \<and> \<not> closed M' \<and> current M' = eof
       \<and> tokenStart M' = tokenStart (consume M) \<and> panicked M' = panicked (consume M)"
  proof (rule Cons.IH)
    show "\<not> closed (consume M)"
      using Cons.prems(1) by (simp add: cm consumed_def)
    show "wrap (Col (tokenEnd (consume M))) = Col (tokenEnd (consume M))"
      using x cur by (simp add: cm consumed_def NextCharacter_def)
    show "case xs of [] \<Rightarrow> current (consume M) = eof \<and> source (consume M) = []
              | y # ys \<Rightarrow> current (consume M) = y \<and> source (consume M) = map Read ys"
      by (cases xs) (simp_all add: cm)
    show "\<forall>r \<in> set xs. r \<noteq> ch (CHR 0x22) \<and> r \<noteq> ch (CHR 0x5C) \<and> r \<noteq> ch (CHR 0x0A) \<and> r \<noteq> bom \<and> r \<noteq> eof"
      using Cons.prems(4) by simp
  qed
  moreover have te: "tokenEnd (consume M) = (tokenEnd M)\<lparr>Col := wrap (Col (tokenEnd M) + 1)\<rparr>"
    using x cur by (simp add: cm consumed_def NextCharacter_def)
  moreover have "wrap (wrap (Col (tokenEnd M) + 1) + int (length xs))
      = wrap (Col (tokenEnd M) + int (length (x # xs)))"
    by (simp add: wrap_add_left add.assoc)
  ultimately show ?case
    by (simp add: step cm consumed_def)
qed

lemma Lex_Read:
  "c \<noteq> bom \<Longrightarrow>
   Lex (Read c # rest) =
     \<lparr>source = rest, current = c, tokenStream = [], closed = False, Errors = 0,
      handled = [], insertSemi = False, tokenStart = Origin, tokenEnd = Origin,
      tokenLiteral = [], panicked = False\<rparr>"
  by (simp add: Lex_def readRune_def)

lemma lex_body_eof:
  "current M = eof \<Longrightarrow> lex_body U M = (False, close M)"
proof -
  assume e: "current M = eof"
  have "\<not> IsLetter U eof" "\<not> unicode_IsDigit U eof" "\<not> IsSpace U eof"
    using IsLetter_not_eof unicode_IsDigit_not_eof IsSpace_not_eof by blast+
  then show ?thesis
    using IsOperator_eof_single
    by (simp add: lex_body_def e) (simp add: eof_def ch_def)
qed



text \<open>What single turns of the loop send, when no read of the source fails.\<close>

lemma consume_frame:
  "tokenLiteral (consume L) = tokenLiteral L @ string_of_rune (current L)"
  "tokenStart (consume L) = tokenStart L"
  "tokenStream (consume L) = tokenStream L"
  "panicked (consume L) = panicked L"
proof -
  obtain r L4 where rd: "readRune False (consumed L) = (r, L4)"
    by fastforce
  have c: "consume L = L4\<lparr>current := r\<rparr>"
    by (simp add: consume_readRune rd)
  show "tokenLiteral (consume L) = tokenLiteral L @ string_of_rune (current L)"
    "tokenStart (consume L) = tokenStart L"
    "tokenStream (consume L) = tokenStream L"
    "panicked (consume L) = panicked L"
    using readRune_frame [OF rd] by (simp_all add: c consumed_def)
qed

lemma emit_sends:
  assumes w: "within L M" and L: "\<not> closed L" "\<not> panicked L" "ReadFailure \<notin> set (source L)"
  shows "again (emit tokenType M) = (True, emit tokenType M)"
    and "tokenStream (emit tokenType M) =
           tokenStream L @ [\<lparr>Type = tokenType, Literal = tokenLiteral M, Pos = tokenStart L\<rparr>]"
    and "tokenLiteral (emit tokenType M) = []"
    and "\<not> closed (emit tokenType M)" and "\<not> panicked (emit tokenType M)"
    and "ReadFailure \<notin> set (source (emit tokenType M))"
    and "current (emit tokenType M) = current M" and "source (emit tokenType M) = source M"
    and "handled (emit tokenType M) = handled M" and "Errors (emit tokenType M) = Errors M"
    and "tokenStart (emit tokenType M) = tokenEnd M"
proof -
  have M: "\<not> closed M" "ReadFailure \<notin> set (source M)" "\<not> panicked M"
      "tokenStream M = tokenStream L" "tokenStart M = tokenStart L"
    using w L by (simp_all add: within_def)
  then show "again (emit tokenType M) = (True, emit tokenType M)"
    and "tokenStream (emit tokenType M) =
           tokenStream L @ [\<lparr>Type = tokenType, Literal = tokenLiteral M, Pos = tokenStart L\<rparr>]"
    and "tokenLiteral (emit tokenType M) = []"
    and "\<not> closed (emit tokenType M)" and "\<not> panicked (emit tokenType M)"
    and "ReadFailure \<notin> set (source (emit tokenType M))"
    and "current (emit tokenType M) = current M" and "source (emit tokenType M) = source M"
    and "handled (emit tokenType M) = handled M" and "Errors (emit tokenType M) = Errors M"
    and "tokenStart (emit tokenType M) = tokenEnd M"
    by (simp_all add: again_def emit_def discard_def Let_def)
qed

lemma underscore_turn:
  assumes L: "\<not> closed L" "\<not> panicked L" "ReadFailure \<notin> set (source L)"
    and lit: "tokenLiteral L = []" and cur: "current L = ch CHR ''_''"
  shows "lex_body U L = (True, emit Underscore (consume L))"
    and "tokenStream (emit Underscore (consume L)) =
           tokenStream L @ [\<lparr>Type = Underscore, Literal = runes ''_'', Pos = tokenStart L\<rparr>]"
proof -
  have "\<not> IsLetter U (current L)"
    by (simp add: cur IsLetter_def latin1_letter_def MaxLatin1_def ch_def)
  then have "lex_body U L = again (emit Underscore (consume L))"
    by (simp add: lex_body_def cur)
  then show "lex_body U L = (True, emit Underscore (consume L))"
    using emit_sends(1) [OF within_consume L] by simp
  have "tokenLiteral (consume L) = runes ''_''"
    by (simp add: consume_frame lit cur string_of_rune_def ValidRune_def runes_def ch_def)
  then show "tokenStream (emit Underscore (consume L)) =
           tokenStream L @ [\<lparr>Type = Underscore, Literal = runes ''_'', Pos = tokenStart L\<rparr>]"
    using emit_sends(2) [OF within_consume L, of Underscore] by simp
qed

lemma letter_turn:
  assumes L: "\<not> closed L" "\<not> panicked L" "ReadFailure \<notin> set (source L)"
    and lit: "tokenLiteral L = []" and cur: "IsLetter U (current L)"
  shows "\<exists>L' t s. lex_body U L = (True, L') \<and> tokenStream L' = tokenStream L @ [t]
           \<and> Literal t = string_of_rune (current L) @ s \<and> Pos t = tokenStart L
           \<and> Type t = Lookup (Literal t)"
proof -
  define M where "M = consumeIdentifier U (consume L)"
  have ci: "consumeIdentifier U L = M"
    unfolding M_def using cur by (subst consumeIdentifier.simps) simp
  have wc: "within (consume L) M"
    unfolding M_def by simp
  then obtain s where s: "tokenLiteral M = string_of_rune (current L) @ s"
    by (auto simp: within_def consume_frame lit)
  have w: "within L M"
    using within_consume wc by (rule within_trans)
  have body: "lex_body U L = again (emit (Lookup (tokenLiteral M)) M)"
    using cur by (simp add: lex_body_def lexIdentifier_def Let_def ci)
  define t where "t = \<lparr>Type = Lookup (tokenLiteral M), Literal = tokenLiteral M, Pos = tokenStart L\<rparr>"
  have "lex_body U L = (True, emit (Lookup (tokenLiteral M)) M)"
    using body emit_sends(1) [OF w L] by simp
  moreover have "tokenStream (emit (Lookup (tokenLiteral M)) M) = tokenStream L @ [t]"
    using emit_sends(2) [OF w L] by (simp add: t_def)
  moreover have "Literal t = string_of_rune (current L) @ s" "Pos t = tokenStart L"
      "Type t = Lookup (Literal t)"
    by (simp_all add: t_def s)
  ultimately show ?thesis
    by blast
qed

lemma IsDigit_10: "IsDigit r 10 \<Longrightarrow> ch CHR ''0'' \<le> r \<and> r \<le> ch CHR ''9''"
  by (auto simp: IsDigit_def runes_def ch_def split: if_splits)

lemma lexNumber_consume_first:
  assumes d: "IsDigit (current L) 10"
  shows "within (consume L) (lexNumber_consume U L)"
proof -
  obtain base cantBe0 L1 where p: "lexNumber_prefix L = (base, cantBe0, L1)"
    by (cases "lexNumber_prefix L") auto
  have "within (consume L) (consumeDigits base cantBe0 L1)"
  proof (cases "current L = ch CHR ''0''")
    case True
    then have "within (consume L) (snd (snd (lexNumber_prefix L)))"
      by (simp add: lexNumber_prefix_def Let_def)
    then have "within (consume L) L1"
      by (simp add: p)
    then show ?thesis
      by (rule within_consumeDigits_I)
  next
    case False
    with p have p': "base = 10" "cantBe0 = False" "L1 = L"
      by (simp_all add: lexNumber_prefix_def)
    have "consumeDigits_loop 10 L = consumeDigits_loop 10 (consume L)"
      using d by (subst consumeDigits_loop.simps) simp
    then show ?thesis
      by (simp add: p' consumeDigits_def)
  qed
  then show ?thesis
    unfolding lexNumber_consume_def p Let_def
    by (simp add: within_trans [OF _ within_lexNumber_fraction])
qed

lemma digit_dispatch:
  assumes d: "ch CHR ''0'' \<le> current L \<and> current L \<le> ch CHR ''9''"
  shows "lex_body U L = again (lexNumber U L)"
proof -
  have "\<not> IsLetter U (current L)" "unicode_IsDigit U (current L)"
    using d by (auto simp: IsLetter_def latin1_letter_def unicode_IsDigit_def MaxLatin1_def ch_def)
  then show ?thesis
    using d by (auto simp: lex_body_def ch_def)
qed

lemma digit_turn:
  assumes L: "\<not> closed L" "\<not> panicked L" "ReadFailure \<notin> set (source L)"
    and lit: "tokenLiteral L = []" and cur: "IsDigit (current L) 10"
  shows "\<exists>L' s. lex_body U L = (True, L')
           \<and> tokenStream L' = tokenStream L @
                [\<lparr>Type = Number, Literal = current L # s, Pos = tokenStart L\<rparr>]"
proof -
  define M where "M = lexNumber_consume U L"
  have d: "ch CHR ''0'' \<le> current L \<and> current L \<le> ch CHR ''9''"
    using cur by (rule IsDigit_10)
  have sr: "string_of_rune (current L) = [current L]"
    using d by (simp add: string_of_rune_def ValidRune_def ch_def)
  have wc: "within (consume L) M"
    unfolding M_def using cur by (rule lexNumber_consume_first)
  then obtain s where s: "tokenLiteral M = current L # s"
    by (auto simp: within_def consume_frame lit sr)
  have w: "within L M"
    using within_consume wc by (rule within_trans)
  have "lex_body U L = again (emit Number M)"
    using digit_dispatch [OF d] by (simp add: lexNumber_def M_def)
  then have "lex_body U L = (True, emit Number M)"
    using emit_sends(1) [OF w L] by simp
  moreover have "tokenStream (emit Number M) = tokenStream L @
                [\<lparr>Type = Number, Literal = current L # s, Pos = tokenStart L\<rparr>]"
    using emit_sends(2) [OF w L] by (simp add: s)
  ultimately show ?thesis
    by blast
qed

lemma number_single:
  assumes M: "\<not> closed M" and d: "current M = ch CHR ''8'' \<or> current M = ch CHR ''9''"
    and nxt: "source M = [] \<or>
              (\<exists>c rest'. source M = Read c # rest' \<and> c \<noteq> bom \<and> \<not> IsDigit c 10 \<and> c \<noteq> ch CHR ''.''
                  \<and> ToLower U c \<noteq> ch CHR ''e'' \<and> ToLower U c \<noteq> ch CHR ''p'')"
  shows "lexNumber_consume U M = consume M"
    and "handled (consume M) = handled M" and "Errors (consume M) = Errors M"
    and "tokenLiteral (consume M) = tokenLiteral M @ [current M]"
proof -
  define c' where "c' = current (consume M)"
  have after: "handled (consume M) = handled M \<and> Errors (consume M) = Errors M
      \<and> \<not> IsDigit c' 10 \<and> c' \<noteq> ch CHR ''.''
      \<and> ToLower U c' \<noteq> ch CHR ''e'' \<and> ToLower U c' \<noteq> ch CHR ''p''"
  proof (cases "source M = []")
    case True
    have "consume M = (consumed M)\<lparr>source := [], current := eof\<rparr>"
      using M True by (rule consume_Nil)
    then show ?thesis
      using ToLower_eof [of U]
      by (simp add: c'_def consumed_def IsDigit_def runes_def eof_def ch_def)
  next
    case False
    with nxt obtain c rest' where src: "source M = Read c # rest'" and c: "c \<noteq> bom"
        "\<not> IsDigit c 10" "c \<noteq> ch CHR ''.''" "ToLower U c \<noteq> ch CHR ''e''" "ToLower U c \<noteq> ch CHR ''p''"
      by blast
    have "consume M = (consumed M)\<lparr>source := rest', current := c\<rparr>"
      using M src c(1) by (rule consume_Read)
    then show ?thesis
      using c by (simp add: c'_def consumed_def)
  qed
  show "handled (consume M) = handled M" "Errors (consume M) = Errors M"
    using after by simp_all
  have dig: "IsDigit (current M) 10" "current M \<noteq> ch CHR ''0''"
    using d by (auto simp: IsDigit_def runes_def ch_def)
  have prefix: "lexNumber_prefix M = (10, False, M)"
    using dig(2) by (simp add: lexNumber_prefix_def)
  have "consumeDigits_loop 10 M = consumeDigits_loop 10 (consume M)"
    using dig(1) by (subst consumeDigits_loop.simps) simp
  also have "\<dots> = consume M"
    using after by (subst consumeDigits_loop.simps) (simp add: c'_def)
  finally have digits: "consumeDigits 10 False M = consume M"
    by (simp add: consumeDigits_def)
  have "lexNumber_fraction U 10 (consume M) = consume M"
    using after by (simp add: lexNumber_fraction_def c'_def)
  then show "lexNumber_consume U M = consume M"
    by (simp add: lexNumber_consume_def prefix digits)
  show "tokenLiteral (consume M) = tokenLiteral M @ [current M]"
    using d by (auto simp: consume_frame string_of_rune_def ValidRune_def ch_def)
qed

lemma zero_then_eight_or_nine:
  assumes L: "\<not> closed L" and cur: "current L = ch CHR ''0''"
    and src: "source L = Read d # rest" and d: "d = ch CHR ''8'' \<or> d = ch CHR ''9''"
  shows "lexNumber_consume U L = (consumed L)\<lparr>source := rest, current := d\<rparr>"
proof -
  have "d \<noteq> bom"
    using d by (auto simp: bom_def ch_def)
  with L src have c: "consume L = (consumed L)\<lparr>source := rest, current := d\<rparr>"
    by (rule consume_Read)
  have prefix: "lexNumber_prefix L = (8, False, consume L)"
    using d by (auto simp: lexNumber_prefix_def Let_def cur c ch_def)
  have "\<not> IsDigit (current (consume L)) 8"
    using d by (auto simp: c IsDigit_def runes_def ch_def)
  then have "consumeDigits 8 False (consume L) = consume L"
    unfolding consumeDigits_def by (subst consumeDigits_loop.simps) simp
  then show ?thesis
    by (simp add: lexNumber_consume_def prefix c)
qed

section \<open>String literals with one escape\<close>

lemma consume_at:
  "\<not> closed M \<Longrightarrow> source M = map Read ys @ rest \<Longrightarrow> ys \<noteq> [] \<Longrightarrow> hd ys \<noteq> bom \<Longrightarrow>
     consume M = (consumed M)\<lparr>source := map Read (tl ys) @ rest, current := hd ys\<rparr>"
  by (cases ys) (simp_all add: consume_Read)

lemma lexString_loop_plain:
  "\<not> closed M \<Longrightarrow> wrap (Col (tokenEnd M)) = Col (tokenEnd M) \<Longrightarrow> current M = hd (pre @ [x]) \<Longrightarrow> source M = map Read (tl (pre @ [x])) @ rest \<Longrightarrow>
   \<forall>r \<in> set pre. plain r \<Longrightarrow> x \<noteq> bom \<Longrightarrow>
     lexString_loop M =
       lexString_loop (M\<lparr>tokenLiteral := tokenLiteral M @ pre,
                         tokenEnd := (tokenEnd M)\<lparr>Col := wrap (Col (tokenEnd M) + int (length pre))\<rparr>,
                         source := rest, current := x\<rparr>)"
proof (induction pre arbitrary: M)
  case Nil
  then have "M\<lparr>tokenLiteral := tokenLiteral M @ [],
               tokenEnd := (tokenEnd M)\<lparr>Col := wrap (Col (tokenEnd M) + int (length ([]::rune list)))\<rparr>,
               source := rest, current := x\<rparr> = M"
    by simp
  then show ?case by simp
next
  case (Cons r pre)
  have cur: "current M = r"
    using Cons.prems(3) by simp
  have r: "r \<noteq> ch (CHR 0x22)" "r \<noteq> ch (CHR 0x5C)" "r \<noteq> ch (CHR 0x0A)" "r \<noteq> eof" "ValidRune r"
    using Cons.prems(5) by (simp_all add: plain_def)
  have nb: "hd (pre @ [x]) \<noteq> bom"
    using Cons.prems(5,6) by (cases pre) (simp_all add: plain_def)
  have src: "source M = map Read (pre @ [x]) @ rest"
    using Cons.prems(4) by simp
  have cm: "consume M = (consumed M)\<lparr>source := map Read (tl (pre @ [x])) @ rest,
                                      current := hd (pre @ [x])\<rparr>"
    using consume_at [OF Cons.prems(1) src _ nb] by simp
  have "consumeRune (ch (CHR 0x22)) M = consume M"
    using r cur by (simp add: consumeRune_def)
  then have step: "lexString_loop M = lexString_loop (consume M)"
    using r cur by (subst lexString_loop.simps) simp
  have "lexString_loop (consume M) =
       lexString_loop ((consume M)\<lparr>tokenLiteral := tokenLiteral (consume M) @ pre,
                         tokenEnd := (tokenEnd (consume M))\<lparr>Col := wrap (Col (tokenEnd (consume M)) + int (length pre))\<rparr>,
                         source := rest, current := x\<rparr>)"
  proof (rule Cons.IH)
    show "\<not> closed (consume M)"
      using Cons.prems(1) by (simp add: cm consumed_def)
    show "wrap (Col (tokenEnd (consume M))) = Col (tokenEnd (consume M))"
      using r cur by (simp add: cm consumed_def NextCharacter_def)
    show "current (consume M) = hd (pre @ [x])"
      by (simp add: cm)
    show "source (consume M) = map Read (tl (pre @ [x])) @ rest"
      by (simp add: cm)
    show "\<forall>r \<in> set pre. plain r"
      using Cons.prems(5) by simp
    show "x \<noteq> bom"
      using Cons.prems(6) .
  qed
  moreover have "(consume M)\<lparr>tokenLiteral := tokenLiteral (consume M) @ pre,
                         tokenEnd := (tokenEnd (consume M))\<lparr>Col := wrap (Col (tokenEnd (consume M)) + int (length pre))\<rparr>,
                         source := rest, current := x\<rparr>
      = M\<lparr>tokenLiteral := tokenLiteral M @ r # pre,
                         tokenEnd := (tokenEnd M)\<lparr>Col := wrap (Col (tokenEnd M) + int (length (r # pre)))\<rparr>,
                         source := rest, current := x\<rparr>"
    using r cur by (simp add: cm consumed_def string_of_rune_def NextCharacter_def wrap_add_left add.assoc)
  ultimately show ?case
    by (simp only: step)
qed

lemma consumeEscape_u0041:
  "\<not> closed M \<Longrightarrow> current M = ch (CHR 0x5C) \<Longrightarrow>
   source M = map Read (runes ''u0041'') @ Read x # rest \<Longrightarrow> x \<noteq> bom \<Longrightarrow>
     consumeEscape (ch (CHR 0x22)) M =
       M\<lparr>tokenLiteral := tokenLiteral M @ ch (CHR 0x5C) # runes ''u0041'',
         tokenEnd := (tokenEnd M)\<lparr>Col := wrap (6 + Col (tokenEnd M))\<rparr>,
         source := rest, current := x\<rparr>"
  by (simp add: consumeEscape_def consume_readRune readRune_def consumed_def Let_def
        runes_def ch_def bom_def string_of_rune_def ValidRune_def IsDigit_def
        NextCharacter_def ParseInt_def hexDigit_def raise_def raiseAt_def wrap_add_left wrap_add_right eval_nat_numeral)

lemma consumeEscape_uD800:
  "\<not> closed M \<Longrightarrow> current M = ch (CHR 0x5C) \<Longrightarrow>
   source M = map Read (runes ''uD800'') @ Read x # rest \<Longrightarrow> x \<noteq> bom \<Longrightarrow>
     consumeEscape (ch (CHR 0x22)) M =
       M\<lparr>tokenLiteral := tokenLiteral M @ ch (CHR 0x5C) # runes ''uD800'',
         tokenEnd := (tokenEnd M)\<lparr>Col := wrap (6 + Col (tokenEnd M))\<rparr>,
         source := rest, current := x,
         Errors := wrap (Errors M + 1),
         handled := handled M @
           [\<lparr>pos = (tokenEnd M)\<lparr>Col := wrap (6 + Col (tokenEnd M))\<rparr>,
             err = ErrInvalidCodepoint (runes ''u'') (runes ''D800'')\<rparr>]\<rparr>"
  by (simp add: consumeEscape_def consume_readRune readRune_def consumed_def Let_def
        runes_def ch_def bom_def string_of_rune_def ValidRune_def IsDigit_def
        NextCharacter_def ParseInt_def hexDigit_def raise_def raiseAt_def wrap_add_left wrap_add_right eval_nat_numeral)

lemma lexString_one_escape:
  assumes esc: "\<And>M x rest. \<not> closed M \<Longrightarrow> current M = ch (CHR 0x5C) \<Longrightarrow>
            source M = map Read e @ Read x # rest \<Longrightarrow> x \<noteq> bom \<Longrightarrow>
            consumeEscape (ch (CHR 0x22)) M =
              M\<lparr>tokenLiteral := tokenLiteral M @ ch (CHR 0x5C) # e,
                tokenEnd := (tokenEnd M)\<lparr>Col := wrap (6 + Col (tokenEnd M))\<rparr>,
                source := rest, current := x,
                Errors := count (Errors M),
                handled := handled M @ errs ((tokenEnd M)\<lparr>Col := wrap (6 + Col (tokenEnd M))\<rparr>)\<rparr>"
    and pre: "\<forall>r \<in> set pre. plain r"
    and post: "\<forall>r \<in> set post. plain r"
  shows "\<exists>L. lex_loop U (Suc (Suc n))
              (Lex (Read (ch (CHR 0x22)) # map Read (pre @ ch (CHR 0x5C) # e @ post)
                    @ [Read (ch (CHR 0x22))])) = (True, L)
           \<and> tokenStream L =
               [\<lparr>Type = String,
                 Literal = ch (CHR 0x22) # pre @ ch (CHR 0x5C) # e @ post @ [ch (CHR 0x22)],
                 Pos = Origin\<rparr>]
           \<and> handled L = errs \<lparr>Line = 1, Col = wrap (8 + int (length pre))\<rparr>
           \<and> Errors L = count 0
           \<and> closed L"
proof -
  define q where "q = ch (CHR 0x22)"
  define b where "b = ch (CHR 0x5C)"
  have qb: "q = 34" "b = 92"
    by (simp_all add: q_def b_def ch_def)
  note qb = qb bom_def eof_def ch_def
  define rest1 where "rest1 = map Read e @ map Read post @ [Read q]"
  define L0 where "L0 = Lex (Read q # map Read (pre @ b # e @ post) @ [Read q])"
  have L0: "L0 = \<lparr>source = map Read (pre @ [b]) @ rest1, current = q, tokenStream = [],
      closed = False, Errors = 0, handled = [], insertSemi = False, tokenStart = Origin,
      tokenEnd = Origin, tokenLiteral = [], panicked = False\<rparr>"
    unfolding L0_def rest1_def by (subst Lex_Read) (simp_all add: qb)
  \<comment> \<open>the opening quote\<close>
  define M1 where "M1 = consume L0"
  have nb1: "hd (pre @ [b]) \<noteq> bom"
    using pre qb by (cases pre) (simp_all add: plain_def)
  have M1: "M1 = (consumed L0)\<lparr>source := map Read (tl (pre @ [b])) @ rest1, current := hd (pre @ [b])\<rparr>"
    unfolding M1_def by (rule consume_at) (simp_all add: L0 nb1)
  \<comment> \<open>the text before the escape\<close>
  define M2 where "M2 = M1\<lparr>tokenLiteral := tokenLiteral M1 @ pre,
                         tokenEnd := (tokenEnd M1)\<lparr>Col := wrap (Col (tokenEnd M1) + int (length pre))\<rparr>,
                         source := rest1, current := b\<rparr>"
  have s12: "lexString_loop M1 = lexString_loop M2"
    unfolding M2_def
    by (rule lexString_loop_plain) (simp_all add: M1 consumed_def L0 pre qb NextCharacter_def)
  \<comment> \<open>the escape\<close>
  define x where "x = hd (post @ [q])"
  define rest2 where "rest2 = map Read (tl (post @ [q]))"
  have r1: "rest1 = map Read e @ Read x # rest2"
    unfolding rest1_def x_def rest2_def by (cases post) simp_all
  have xb: "x \<noteq> bom"
    unfolding x_def using post qb by (cases post) (simp_all add: plain_def)
  have M2f: "\<not> closed M2" "current M2 = b" "source M2 = map Read e @ Read x # rest2"
    by (simp_all add: M2_def M1 consumed_def L0 r1)
  define M3 where "M3 = consumeEscape q M2"
  have M3: "M3 = M2\<lparr>tokenLiteral := tokenLiteral M2 @ b # e,
                tokenEnd := (tokenEnd M2)\<lparr>Col := wrap (6 + Col (tokenEnd M2))\<rparr>,
                source := rest2, current := x,
                Errors := count (Errors M2),
                handled := handled M2 @ errs ((tokenEnd M2)\<lparr>Col := wrap (6 + Col (tokenEnd M2))\<rparr>)\<rparr>"
    unfolding M3_def q_def b_def
    by (rule esc) (use M2f xb in \<open>simp_all add: q_def b_def\<close>)
  have "consumeRune q M2 = M3"
    using M2f by (simp add: consumeRune_def M3_def b_def)
  then have s23: "lexString_loop M2 = lexString_loop M3"
    using M2f qb by (subst lexString_loop.simps) (simp add: q_def b_def)
  \<comment> \<open>the text after the escape\<close>
  define M4 where "M4 = M3\<lparr>tokenLiteral := tokenLiteral M3 @ post,
                         tokenEnd := (tokenEnd M3)\<lparr>Col := wrap (Col (tokenEnd M3) + int (length post))\<rparr>,
                         source := [], current := q\<rparr>"
  have s34: "lexString_loop M3 = lexString_loop M4"
    unfolding M4_def
  proof (rule lexString_loop_plain)
    show "\<not> closed M3" using M2f by (simp add: M3)
    show "wrap (Col (tokenEnd M3)) = Col (tokenEnd M3)" by (simp add: M3)
    show "current M3 = hd (post @ [q])" by (simp add: M3 x_def)
    show "source M3 = map Read (tl (post @ [q])) @ []" by (simp add: M3 rest2_def)
    show "\<forall>r \<in> set post. plain r" using post .
    show "q \<noteq> bom" using qb by simp
  qed
  have s4: "lexString_loop M4 = (True, M4)"
    by (subst lexString_loop.simps) (simp add: M4_def q_def)
  \<comment> \<open>the closing quote\<close>
  have M4f: "\<not> closed M4" "source M4 = []"
    using M2f by (simp_all add: M4_def M3)
  define M5 where "M5 = consume M4"
  have M5: "M5 = (consumed M4)\<lparr>source := [], current := eof\<rparr>"
    unfolding M5_def using M4f by (rule consume_Nil)
  have "lexString L0 = emit String M5"
    by (simp add: lexString_def M1_def [symmetric] s12 s23 s34 s4 M5_def)
  moreover have "\<not> IsLetter U 34" "\<not> unicode_IsDigit U 34"
    by (simp_all add: IsLetter_def latin1_letter_def MaxLatin1_def unicode_IsDigit_def ch_def)
  ultimately have body: "lex_body U L0 = again (emit String M5)"
    by (simp add: lex_body_def L0 qb ch_def)
  define E where "E = errs \<lparr>Line = 1, Col = wrap (8 + int (length pre))\<rparr>"
  have pos: "(tokenEnd M2)\<lparr>Col := wrap (6 + Col (tokenEnd M2))\<rparr> = \<lparr>Line = 1, Col = wrap (8 + int (length pre))\<rparr>"
    by (simp add: M2_def M1 consumed_def L0 qb NextCharacter_def Origin_def wrap_add_left wrap_add_right)
  have lit: "tokenLiteral M5 = q # pre @ b # e @ post @ [q]"
    by (simp add: M5 consumed_def M4_def M3 M2_def M1 L0 string_of_rune_def ValidRune_def qb)
  have M2g: "handled M2 = []" "Errors M2 = 0" "tokenStream M2 = []" "tokenStart M2 = Origin"
      "\<not> panicked M2"
    by (simp_all add: M2_def M1 consumed_def L0)
  have M3g: "handled M3 = E" "Errors M3 = count 0" "tokenStream M3 = []"
      "tokenStart M3 = Origin" "\<not> panicked M3" "\<not> closed M3"
    using M2g M2f(1) by (simp_all add: M3 pos E_def)
  have fields: "\<not> closed M5" "\<not> panicked M5" "tokenStream M5 = []" "tokenStart M5 = Origin"
      "handled M5 = E" "Errors M5 = count 0" "current M5 = eof"
    using M3g by (simp_all add: M5 consumed_def M4_def)
  define L1 where "L1 = emit String M5"
  have L1: "\<not> panicked L1" "current L1 = eof" "\<not> closed L1"
      "tokenStream L1 = [\<lparr>Type = String, Literal = q # pre @ b # e @ post @ [q], Pos = Origin\<rparr>]"
      "handled L1 = E" "Errors L1 = count 0"
    using fields lit by (simp_all add: L1_def emit_def discard_def Let_def)
  have first: "lex_body U L0 = (True, L1)"
    using body L1(1) by (simp add: again_def L1_def)
  have second: "lex_body U L1 = (False, close L1)"
    using L1(2) by (rule lex_body_eof)
  have "lex_loop U (Suc (Suc n)) L0 = (True, close L1)"
    by (simp add: first second)
  then show ?thesis
    unfolding L0_def [symmetric] E_def [symmetric] q_def [symmetric] b_def [symmetric]
    using L1 by (simp add: close_def)
qed

lemma lex_loop_finished_stable:
  "lex_loop U n L = (True, L') \<Longrightarrow> lex_loop U (n + k) L = (True, L')"
proof (induction n arbitrary: L)
  case 0
  then show ?case by simp
next
  case (Suc n)
  obtain again M where body: "lex_body U L = (again, M)"
    by fastforce
  show ?case
  proof (cases again)
    case True
    with Suc.prems body have "lex_loop U n M = (True, L')" by simp
    from Suc.IH [OF this] body True show ?thesis by simp
  next
    case False
    with Suc.prems body show ?thesis by simp
  qed
qed

lemma lex_body_digit_outside_latin1:
  assumes d: "MaxLatin1 < d" "d \<le> MaxRune" "Digit U d" "\<not> Letter U d" "LowerCase U d = d"
    and L: "\<not> closed L" "\<not> panicked L" "current L = d"
  shows "lex_body U L = (True, emit Number L)"
proof -
  have big: "255 < d"
    using d(1) by (simp add: MaxLatin1_def)
  have nd: "\<not> IsDigit d base" for base
    using big by (auto simp: IsDigit_def runes_def ch_def)
  have loop: "consumeDigits_loop base L = L" for base
    by (subst consumeDigits_loop.simps) (simp add: L nd)
  have prefix: "lexNumber_prefix L = (10, False, L)"
    using big by (simp add: lexNumber_prefix_def L ch_def)
  have lower: "ToLower U d = d"
    using big d(5) by (simp add: ToLower_def MaxASCII_def)
  have fraction: "lexNumber_fraction U 10 L = L"
    using big by (simp add: lexNumber_fraction_def L lower ch_def)
  have "lexNumber_consume U L = L"
    by (simp add: lexNumber_consume_def prefix consumeDigits_def nd L loop fraction)
  then have "lexNumber U L = emit Number L"
    by (simp add: lexNumber_def)
  moreover have "\<not> IsLetter U d" "unicode_IsDigit U d"
    using big d by (simp_all add: IsLetter_def unicode_IsDigit_def isExcludingLatin_def MaxLatin1_def)
  moreover have "\<not> panicked (emit Number L)"
    using L by (simp add: emit_def discard_def Let_def)
  ultimately show ?thesis
    using big by (simp add: lex_body_def L again_def ch_def)
qed

section \<open>A line of spaces\<close>


section \<open>Runs on concrete inputs\<close>

text \<open>
  Each run but the last is stated for every choice of the Unicode tables and for every
  number of turns from the one at which the goroutine ends.
\<close>

lemma scan_0x:
  "lex_loop U (Suc (Suc n)) (Lex (text_source ''0x'')) =
    (True,
     \<lparr>source = [], current = - 1,
      tokenStream = [\<lparr>Type = 5, Literal = [48, 120], Pos = \<lparr>Line = 1, Col = 1\<rparr>\<rparr>],
      closed = True, Errors = 1,
      handled = [\<lparr>pos = \<lparr>Line = 1, Col = 3\<rparr>, err = ErrExpectedDigits 16 (- 1)\<rparr>],
      insertSemi = True, tokenStart = \<lparr>Line = 1, Col = 3\<rparr>, tokenEnd = \<lparr>Line = 1, Col = 3\<rparr>,
      tokenLiteral = [], panicked = False\<rparr>)"
  by code_simp

lemma scan_rune_ab:
  "lex_loop U (Suc (Suc n)) (Lex (text_source (CHR 0x27 # ''ab'' @ [CHR 0x27]))) =
    (True,
     \<lparr>source = [], current = - 1,
      tokenStream = [\<lparr>Type = 6, Literal = [39, 97, 98, 39], Pos = \<lparr>Line = 1, Col = 1\<rparr>\<rparr>],
      closed = True, Errors = 1,
      handled = [\<lparr>pos = \<lparr>Line = 1, Col = 1\<rparr>, err = ErrTooManyRuneChars\<rparr>],
      insertSemi = True, tokenStart = \<lparr>Line = 1, Col = 5\<rparr>, tokenEnd = \<lparr>Line = 1, Col = 5\<rparr>,
      tokenLiteral = [], panicked = False\<rparr>)"
  by code_simp

lemma scan_a_newline:
  "lex_loop U (Suc (Suc (Suc (Suc n)))) (Lex (text_source (''a'' @ [CHR 0x0A]))) =
    (True,
     \<lparr>source = [], current = - 1,
      tokenStream = [\<lparr>Type = 4, Literal = [97], Pos = \<lparr>Line = 1, Col = 1\<rparr>\<rparr>,
                     \<lparr>Type = 47, Literal = [], Pos = \<lparr>Line = 1, Col = 2\<rparr>\<rparr>],
      closed = True, Errors = 0, handled = [], insertSemi = False,
      tokenStart = \<lparr>Line = 2, Col = 1\<rparr>, tokenEnd = \<lparr>Line = 2, Col = 1\<rparr>,
      tokenLiteral = [], panicked = False\<rparr>)"
  by code_simp

lemma scan_a_plus_newline:
  "lex_loop U (Suc (Suc (Suc (Suc n)))) (Lex (text_source (''a+'' @ [CHR 0x0A]))) =
    (True,
     \<lparr>source = [], current = - 1,
      tokenStream = [\<lparr>Type = 4, Literal = [97], Pos = \<lparr>Line = 1, Col = 1\<rparr>\<rparr>,
                     \<lparr>Type = 10, Literal = [43], Pos = \<lparr>Line = 1, Col = 2\<rparr>\<rparr>],
      closed = True, Errors = 0, handled = [], insertSemi = False,
      tokenStart = \<lparr>Line = 2, Col = 1\<rparr>, tokenEnd = \<lparr>Line = 2, Col = 1\<rparr>,
      tokenLiteral = [], panicked = False\<rparr>)"
  by code_simp

lemma scan_a_unclosed_rune:
  "lex_loop U (Suc (Suc (Suc (Suc (Suc (Suc n))))))
      (Lex (text_source (''a '' @ [CHR 0x27] @ ''b'' @ [CHR 0x0A]))) =
    (True,
     \<lparr>source = [], current = - 1,
      tokenStream = [\<lparr>Type = 4, Literal = [97], Pos = \<lparr>Line = 1, Col = 1\<rparr>\<rparr>,
                     \<lparr>Type = 47, Literal = [39, 98], Pos = \<lparr>Line = 1, Col = 3\<rparr>\<rparr>],
      closed = True, Errors = 1,
      handled = [\<lparr>pos = \<lparr>Line = 1, Col = 5\<rparr>, err = ErrUnclosedRuneLit\<rparr>],
      insertSemi = False, tokenStart = \<lparr>Line = 2, Col = 1\<rparr>, tokenEnd = \<lparr>Line = 2, Col = 1\<rparr>,
      tokenLiteral = [], panicked = False\<rparr>)"
  by code_simp

lemma scan_underscore_a:
  "lex_loop U (Suc (Suc (Suc n))) (Lex (text_source ''_a'')) =
    (True,
     \<lparr>source = [], current = - 1,
      tokenStream = [\<lparr>Type = 51, Literal = [95], Pos = \<lparr>Line = 1, Col = 1\<rparr>\<rparr>,
                     \<lparr>Type = 4, Literal = [97], Pos = \<lparr>Line = 1, Col = 2\<rparr>\<rparr>],
      closed = True, Errors = 0, handled = [], insertSemi = True,
      tokenStart = \<lparr>Line = 1, Col = 3\<rparr>, tokenEnd = \<lparr>Line = 1, Col = 3\<rparr>,
      tokenLiteral = [], panicked = False\<rparr>)"
  by code_simp


section \<open>The claims\<close>

text \<open>
  C1, at the input \<^verbatim>\<open>a 'b\<close> newline: the rune literal is cut by the newline, \<^verbatim>\<open>lexRune\<close>
  returns without discarding what it consumed, and the semicolon inserted at the newline
  is sent with the literal \<^verbatim>\<open>'b\<close>. An inserted semicolon does not always have an empty
  literal.
\<close>

theorem C1_semicolon_after_unterminated_rune:
  "\<exists>L. lex_loop U (Suc (Suc (Suc (Suc (Suc (Suc n))))))
          (Lex (text_source (''a '' @ [CHR 0x27] @ ''b'' @ [CHR 0x0A]))) = (True, L)
      \<and> tokenStream L =
          [\<lparr>Type = Identifier, Literal = runes ''a'', Pos = Origin\<rparr>,
           \<lparr>Type = Semicolon, Literal = runes (CHR 0x27 # ''b''), Pos = \<lparr>Line = 1, Col = 3\<rparr>\<rparr>]
      \<and> handled L = [\<lparr>pos = \<lparr>Line = 1, Col = 5\<rparr>, err = ErrUnclosedRuneLit\<rparr>]"
  unfolding scan_a_unclosed_rune
  by (simp add: Type_defs runes_def ch_def Origin_def)

text \<open>
  C2. The insert-semicolon flag after an \<^verbatim>\<open>emit\<close>: a comment leaves it as it was; after
  any other type it is true exactly for the literals (identifier, number, rune, string) and
  for right-paren, right-bracket, right-brace, break, continue and return. So the input
  \<^verbatim>\<open>a\<close> newline sends an identifier, then a semicolon with no text, and ends; the input
  \<^verbatim>\<open>a+\<close> newline sends an identifier and a plus and no semicolon.
\<close>

theorem C2_insert_semicolon_policy:
  "insertSemi (emit tokenType L0) =
     (if tokenType = Comment then insertSemi L0
      else tokenType \<in> {Identifier, Number, Rune, String,
                         RightParen, RightBrack, RightBrace, Break, Continue, Return})
   \<and> (\<exists>L. lex_loop U (Suc (Suc (Suc (Suc n)))) (Lex (text_source (''a'' @ [CHR 0x0A]))) = (True, L)
          \<and> tokenStream L = [\<lparr>Type = Identifier, Literal = runes ''a'', Pos = Origin\<rparr>,
                             \<lparr>Type = Semicolon, Literal = [], Pos = \<lparr>Line = 1, Col = 2\<rparr>\<rparr>]
          \<and> closed L
          \<and> (\<forall>received. Type (NextToken L received) = EOF))
   \<and> (\<exists>L. lex_loop U (Suc (Suc (Suc (Suc n)))) (Lex (text_source (''a+'' @ [CHR 0x0A]))) = (True, L)
          \<and> tokenStream L = [\<lparr>Type = Identifier, Literal = runes ''a'', Pos = Origin\<rparr>,
                             \<lparr>Type = Plus, Literal = runes ''+'', Pos = \<lparr>Line = 1, Col = 2\<rparr>\<rparr>]
          \<and> Semicolon \<notin> set (map Type (tokenStream L)))"
proof -
  have policy: "insertSemi (emit tokenType L0) =
     (if tokenType = Comment then insertSemi L0
      else tokenType \<in> {Identifier, Number, Rune, String,
                         RightParen, RightBrack, RightBrace, Break, Continue, Return})"
    by (auto simp: emit_def discard_def Let_def InsertSemiAfter_def IsLiteral_def Type_defs)
  show ?thesis
    unfolding scan_a_newline scan_a_plus_newline
    using policy
    by (simp add: Type_defs runes_def ch_def Origin_def NextToken_def)
qed

text \<open>
  C3, as the claim states it, fails: the input \<^verbatim>\<open>_a\<close> sends the underscore token, and
  the scalar right after the underscore is the letter \<^verbatim>\<open>a\<close>, which becomes an identifier
  of its own. No earlier case of the dispatch takes an underscore: it is not a letter.
\<close>

theorem C3_underscore_before_letter:
  "tokenStream (snd (lex_loop no_tables 3 (Lex (text_source ''_a'')))) =
     [\<lparr>Type = Underscore, Literal = runes ''_'', Pos = Origin\<rparr>,
      \<lparr>Type = Identifier, Literal = runes ''a'', Pos = \<lparr>Line = 1, Col = 2\<rparr>\<rparr>]
   \<and> current (Lex (text_source ''_a'')) = ch CHR ''_''
   \<and> source (Lex (text_source ''_a'')) = [Read (ch CHR ''a'')]
   \<and> IsLetter no_tables (ch CHR ''a'')"
proof -
  have "lex_loop no_tables 3 (Lex (text_source ''_a'')) =
          lex_loop no_tables (Suc (Suc (Suc 0))) (Lex (text_source ''_a''))"
    by (simp add: numeral_3_eq_3)
  moreover have "current (Lex (text_source ''_a'')) = ch CHR ''_''
      \<and> source (Lex (text_source ''_a'')) = [Read (ch CHR ''a'')]"
    by (simp add: Lex_def text_source_def runes_def ch_def readRune_def bom_def)
  moreover have "IsLetter no_tables (ch CHR ''a'')"
    by (simp add: IsLetter_def latin1_letter_def MaxLatin1_def ch_def)
  ultimately show ?thesis
    unfolding scan_underscore_a
    by (simp add: Type_defs runes_def ch_def Origin_def)
qed

text \<open>
  C3, amended. Whenever the loop stands at an underscore and no read of what is left of the
  source fails, the turn sends the underscore token, with the single underscore as its
  literal, whatever comes next: the end of the input (the current rune of the next turn is
  then \<open>eof\<close>) or any rune \<open>c\<close> (then the current rune of the next turn). What comes next
  starts the next token: a letter begins the literal of the identifier or keyword the next
  turn sends, an underscore is sent as an underscore token again, and an ASCII digit begins
  the literal of the number the next turn sends.
\<close>

theorem C3_underscore_whatever_follows:
  assumes "lex_loop U n (Lex src) = (False, L)"
    and "current L = ch CHR ''_''"
    and "ReadFailure \<notin> set (source L)"
  shows "\<exists>L'. lex_body U L = (True, L')
            \<and> tokenStream L' = tokenStream L @
                 [\<lparr>Type = Underscore, Literal = runes ''_'', Pos = tokenStart L\<rparr>]
            \<and> (source L = [] \<longrightarrow> current L' = eof)
            \<and> (\<forall>c rest. source L = Read c # rest \<and> c \<noteq> bom \<longrightarrow> current L' = c \<and> source L' = rest)
            \<and> (IsLetter U (current L') \<longrightarrow>
                 (\<exists>L'' t s. lex_body U L' = (True, L'') \<and> tokenStream L'' = tokenStream L' @ [t]
                     \<and> Literal t = string_of_rune (current L') @ s \<and> Pos t = tokenStart L'
                     \<and> Type t = Lookup (Literal t)))
            \<and> (current L' = ch CHR ''_'' \<longrightarrow>
                 (\<exists>L''. lex_body U L' = (True, L'')
                     \<and> tokenStream L'' = tokenStream L' @
                          [\<lparr>Type = Underscore, Literal = runes ''_'', Pos = tokenStart L'\<rparr>]))
            \<and> (IsDigit (current L') 10 \<longrightarrow>
                 (\<exists>L'' s. lex_body U L' = (True, L'')
                     \<and> tokenStream L'' = tokenStream L' @
                          [\<lparr>Type = Number, Literal = current L' # s, Pos = tokenStart L'\<rparr>]))"
proof -
  have inv: "lexer_inv L" and np: "\<not> panicked L"
    using loop_head [OF assms(1)] by simp_all
  have cur: "current L = 95"
    using assms(2) by (simp add: ch_def)
  have nc: "\<not> closed L"
    using inv cur by (auto simp: lexer_inv_def closed_at_eof_def eof_def)
  have lit: "tokenLiteral L = []"
    using inv np cur by (auto simp: lexer_inv_def settled_def eof_def ch_def)
  define L' where "L' = emit Underscore (consume L)"
  note first = underscore_turn(1) [OF nc np assms(3) lit assms(2), of U, folded L'_def]
    underscore_turn(2) [OF nc np assms(3) lit assms(2), folded L'_def]
  note sent = emit_sends [OF within_consume nc np assms(3), of Underscore, folded L'_def]
  have L': "\<not> closed L'" "\<not> panicked L'" "ReadFailure \<notin> set (source L')" "tokenLiteral L' = []"
    using sent by simp_all
  have "current L' = eof" if "source L = []"
    using sent(7) consume_Nil [OF nc that] by simp
  moreover have "current L' = c \<and> source L' = rest" if "source L = Read c # rest \<and> c \<noteq> bom" for c rest
    using sent(7,8) consume_Read [OF nc, of c rest] that by simp
  moreover have "\<exists>L'' t s. lex_body U L' = (True, L'') \<and> tokenStream L'' = tokenStream L' @ [t]
                     \<and> Literal t = string_of_rune (current L') @ s \<and> Pos t = tokenStart L'
                     \<and> Type t = Lookup (Literal t)"
    if "IsLetter U (current L')"
    using L' that by (rule letter_turn)
  moreover have "\<exists>L''. lex_body U L' = (True, L'')
                     \<and> tokenStream L'' = tokenStream L' @
                          [\<lparr>Type = Underscore, Literal = runes ''_'', Pos = tokenStart L'\<rparr>]"
    if "current L' = ch CHR ''_''"
    using underscore_turn(1) [OF L'(1,2,3,4) that, of U] underscore_turn(2) [OF L'(1,2,3,4) that]
    by blast
  moreover have "\<exists>L'' s. lex_body U L' = (True, L'')
                     \<and> tokenStream L'' = tokenStream L' @
                          [\<lparr>Type = Number, Literal = current L' # s, Pos = tokenStart L'\<rparr>]"
    if "IsDigit (current L') 10"
    using L' that by (rule digit_turn)
  ultimately show ?thesis
    using first by blast
qed

theorem C3_underscore_whatever_follows_witness:
  "current (Lex (text_source ''_a'')) = ch CHR ''_''
   \<and> ReadFailure \<notin> set (source (Lex (text_source ''_a'')))
   \<and> (\<exists>L'. lex_body no_tables (Lex (text_source ''_a'')) = (True, L')
          \<and> tokenStream L' = [\<lparr>Type = Underscore, Literal = runes ''_'', Pos = Origin\<rparr>]
          \<and> current L' = ch CHR ''a'' \<and> source L' = []
          \<and> IsLetter no_tables (current L')
          \<and> (\<exists>L'' t s. lex_body no_tables L' = (True, L'') \<and> tokenStream L'' = tokenStream L' @ [t]
                \<and> Literal t = ch CHR ''a'' # s \<and> Pos t = tokenStart L'))
   \<and> current (Lex (text_source ''_'')) = ch CHR ''_''
   \<and> source (Lex (text_source ''_'')) = []
   \<and> (\<exists>L'. lex_body no_tables (Lex (text_source ''_'')) = (True, L')
          \<and> tokenStream L' = [\<lparr>Type = Underscore, Literal = runes ''_'', Pos = Origin\<rparr>]
          \<and> current L' = eof)"
proof -
  have La: "Lex (text_source ''_a'') =
     \<lparr>source = [Read (ch CHR ''a'')], current = ch CHR ''_'', tokenStream = [], closed = False,
      Errors = 0, handled = [], insertSemi = False, tokenStart = Origin, tokenEnd = Origin,
      tokenLiteral = [], panicked = False\<rparr>"
    by (simp add: text_source_def runes_def Lex_Read ch_def bom_def)
  have Le: "Lex (text_source ''_'') =
     \<lparr>source = [], current = ch CHR ''_'', tokenStream = [], closed = False,
      Errors = 0, handled = [], insertSemi = False, tokenStart = Origin, tokenEnd = Origin,
      tokenLiteral = [], panicked = False\<rparr>"
    by (simp add: text_source_def runes_def Lex_Read ch_def bom_def)
  have a: "lex_loop no_tables 0 (Lex (text_source ''_a'')) = (False, Lex (text_source ''_a''))"
    by simp
  have e: "lex_loop no_tables 0 (Lex (text_source ''_'')) = (False, Lex (text_source ''_''))"
    by simp
  have letter: "IsLetter no_tables (ch CHR ''a'')" "string_of_rune (ch CHR ''a'') = [ch CHR ''a'']"
    by (simp_all add: IsLetter_def latin1_letter_def MaxLatin1_def ch_def string_of_rune_def
          ValidRune_def)
  from C3_underscore_whatever_follows [OF a] obtain L' where
    "lex_body no_tables (Lex (text_source ''_a'')) = (True, L')"
    "tokenStream L' = [\<lparr>Type = Underscore, Literal = runes ''_'', Pos = Origin\<rparr>]"
    "current L' = ch CHR ''a'' \<and> source L' = []"
    "IsLetter no_tables (current L') \<longrightarrow>
       (\<exists>L'' t s. lex_body no_tables L' = (True, L'') \<and> tokenStream L'' = tokenStream L' @ [t]
                     \<and> Literal t = string_of_rune (current L') @ s \<and> Pos t = tokenStart L'
                     \<and> Type t = Lookup (Literal t))"
    by (auto simp: La ch_def bom_def)
  then have first: "\<exists>L'. lex_body no_tables (Lex (text_source ''_a'')) = (True, L')
          \<and> tokenStream L' = [\<lparr>Type = Underscore, Literal = runes ''_'', Pos = Origin\<rparr>]
          \<and> current L' = ch CHR ''a'' \<and> source L' = []
          \<and> IsLetter no_tables (current L')
          \<and> (\<exists>L'' t s. lex_body no_tables L' = (True, L'') \<and> tokenStream L'' = tokenStream L' @ [t]
                \<and> Literal t = ch CHR ''a'' # s \<and> Pos t = tokenStart L')"
    using letter by (intro exI [of _ L']) auto
  from C3_underscore_whatever_follows [OF e] have second:
    "\<exists>L'. lex_body no_tables (Lex (text_source ''_'')) = (True, L')
          \<and> tokenStream L' = [\<lparr>Type = Underscore, Literal = runes ''_'', Pos = Origin\<rparr>]
          \<and> current L' = eof"
    by (auto simp: Le)
  show ?thesis
    using first second by (simp add: La Le)
qed

text \<open>
  C4. The input \<^verbatim>\<open>0x\<close>: the scan ends having sent exactly one token, a number with the
  literal \<^verbatim>\<open>0x\<close>; the error handler has been called exactly once, with "expected digits
  of base 16" (found: the end of the file); the error counter is 1; and every
  \<^verbatim>\<open>NextToken\<close> from then on returns the end-of-stream token.
\<close>

theorem C4_hex_prefix_without_digits:
  "\<exists>L. lex_loop U (Suc (Suc n)) (Lex (text_source ''0x'')) = (True, L)
      \<and> tokenStream L = [\<lparr>Type = Number, Literal = runes ''0x'', Pos = Origin\<rparr>]
      \<and> handled L = [\<lparr>pos = \<lparr>Line = 1, Col = 3\<rparr>, err = ErrExpectedDigits 16 eof\<rparr>]
      \<and> Errors L = 1
      \<and> closed L
      \<and> (\<forall>received. NextToken L received = \<lparr>Type = EOF, Literal = [], Pos = \<lparr>Line = 1, Col = 3\<rparr>\<rparr>)"
  unfolding scan_0x
  by (simp add: Number_def EOF_def runes_def ch_def Origin_def eof_def NextToken_def)




text \<open>
  C6. The input \<^verbatim>\<open>'ab'\<close>: the error handler is called exactly once, with "too many
  characters in rune literal", at the position of the opening quote (the start of the
  token, not the end of the literal at column 5 where the count is checked); the rune
  token is still sent, with the whole literal.
\<close>

theorem C6_too_many_characters:
  "\<exists>L. lex_loop U (Suc (Suc n)) (Lex (text_source (CHR 0x27 # ''ab'' @ [CHR 0x27]))) = (True, L)
      \<and> handled L = [\<lparr>pos = Origin, err = ErrTooManyRuneChars\<rparr>]
      \<and> Errors L = 1
      \<and> tokenStream L =
          [\<lparr>Type = Rune, Literal = runes (CHR 0x27 # ''ab'' @ [CHR 0x27]), Pos = Origin\<rparr>]
      \<and> map pos (handled L) = map Pos (tokenStream L)
      \<and> tokenEnd L = \<lparr>Line = 1, Col = 5\<rparr>"
  unfolding scan_rune_ab
  by (simp add: Rune_def runes_def ch_def Origin_def)

text \<open>
  C7. A double quote followed by runes none of which is a double quote, a backslash, a
  newline or a byte order mark, and then the end of the file: exactly one error is
  raised, "unterminated string literal", at the end of the text (its column the result of
  that many increments); no token is sent; the next turn closes the lexer, and
  \<^verbatim>\<open>NextToken\<close> returns the end-of-stream token from then on (at the position where the
  string began, since nothing was discarded).
\<close>

theorem C7_unterminated_string:
  assumes "\<forall>r \<in> set chars. r \<noteq> ch (CHR 0x22) \<and> r \<noteq> ch (CHR 0x5C) \<and> r \<noteq> ch (CHR 0x0A)
                              \<and> r \<noteq> bom \<and> r \<noteq> eof"
  shows "\<exists>L. lex_loop U (Suc (Suc n)) (Lex (Read (ch (CHR 0x22)) # map Read chars)) = (True, L)
            \<and> tokenStream L = []
            \<and> handled L = [\<lparr>pos = \<lparr>Line = 1, Col = wrap (2 + int (length chars))\<rparr>,
                             err = ErrUnclosedStringLit\<rparr>]
            \<and> Errors L = 1
            \<and> closed L
            \<and> (\<forall>received. NextToken L received = \<lparr>Type = EOF, Literal = [], Pos = Origin\<rparr>)"
proof -
  define L0 where "L0 = Lex (Read (ch (CHR 0x22)) # map Read chars)"
  have L0: "L0 = \<lparr>source = map Read chars, current = 34, tokenStream = [], closed = False,
      Errors = 0, handled = [], insertSemi = False, tokenStart = Origin, tokenEnd = Origin,
      tokenLiteral = [], panicked = False\<rparr>"
    unfolding L0_def by (subst Lex_Read) (simp_all add: ch_def bom_def)
  define M where "M = consume L0"
  have M: "M = (consumed L0)\<lparr>source := map Read (tl chars),
              current := (case chars of [] \<Rightarrow> eof | y # ys \<Rightarrow> y)\<rparr>"
  proof (cases chars)
    case Nil
    then show ?thesis
      unfolding M_def by (subst consume_Nil) (simp_all add: L0)
  next
    case (Cons y ys)
    with assms have "y \<noteq> bom" by simp
    with Cons show ?thesis
      unfolding M_def by (subst consume_Read [where c = y and rest = "map Read ys"]) (simp_all add: L0)
  qed
  have "\<exists>M'. lexString_loop M = (False, M')
       \<and> tokenStream M' = tokenStream M
       \<and> handled M' = handled M @
           [\<lparr>pos = (tokenEnd M)\<lparr>Col := wrap (Col (tokenEnd M) + int (length chars))\<rparr>,
             err = ErrUnclosedStringLit\<rparr>]
       \<and> Errors M' = wrap (Errors M + 1) \<and> \<not> closed M' \<and> current M' = eof
       \<and> tokenStart M' = tokenStart M \<and> panicked M' = panicked M"
  proof (rule lexString_loop_unterminated)
    show "\<not> closed M"
      by (simp add: M consumed_def L0)
    show "wrap (Col (tokenEnd M)) = Col (tokenEnd M)"
      by (simp add: M consumed_def L0 NextCharacter_def ch_def)
    show "case chars of [] \<Rightarrow> current M = eof \<and> source M = []
              | x # xs \<Rightarrow> current M = x \<and> source M = map Read xs"
      by (cases chars) (simp_all add: M)
    show "\<forall>r \<in> set chars. r \<noteq> ch (CHR 0x22) \<and> r \<noteq> ch (CHR 0x5C) \<and> r \<noteq> ch (CHR 0x0A)
                              \<and> r \<noteq> bom \<and> r \<noteq> eof"
      using assms .
  qed
  then obtain M' where loop: "lexString_loop M = (False, M')"
    and M': "tokenStream M' = []"
      "handled M' = [\<lparr>pos = \<lparr>Line = 1, Col = wrap (2 + int (length chars))\<rparr>, err = ErrUnclosedStringLit\<rparr>]"
      "Errors M' = 1" "\<not> closed M'" "current M' = eof" "tokenStart M' = Origin" "\<not> panicked M'"
    by (auto simp: M consumed_def L0 NextCharacter_def Origin_def ch_def wrap_add_left)
  have "lexString L0 = M'"
    by (simp add: lexString_def M_def [symmetric] loop)
  moreover have "\<not> IsLetter U 34" "\<not> unicode_IsDigit U 34"
    by (simp_all add: IsLetter_def latin1_letter_def MaxLatin1_def unicode_IsDigit_def ch_def)
  ultimately have first: "lex_body U L0 = (True, M')"
    using M'(7) by (simp add: lex_body_def L0 ch_def again_def)
  have second: "lex_body U M' = (False, close M')"
    using M'(5) by (rule lex_body_eof)
  have "lex_loop U (Suc (Suc n)) L0 = (True, close M')"
    by (simp add: first second)
  then show ?thesis
    unfolding L0_def [symmetric]
    using M' by (simp add: close_def NextToken_def)
qed

theorem C7_unterminated_string_witness:
  "list_all (\<lambda>r. r \<noteq> ch (CHR 0x22) \<and> r \<noteq> ch (CHR 0x5C) \<and> r \<noteq> ch (CHR 0x0A) \<and> r \<noteq> bom \<and> r \<noteq> eof)
      (runes ''unterminated'')
   \<and> (\<exists>L. lex_loop no_tables 2 (Lex (text_source (CHR 0x22 # ''unterminated''))) = (True, L)
          \<and> tokenStream L = []
          \<and> handled L = [\<lparr>pos = \<lparr>Line = 1, Col = 14\<rparr>, err = ErrUnclosedStringLit\<rparr>]
          \<and> Errors L = 1
          \<and> closed L
          \<and> NextToken L zeroToken = \<lparr>Type = EOF, Literal = [], Pos = Origin\<rparr>)"
proof -
  have h: "\<forall>r \<in> set (runes ''unterminated''). r \<noteq> ch (CHR 0x22) \<and> r \<noteq> ch (CHR 0x5C)
              \<and> r \<noteq> ch (CHR 0x0A) \<and> r \<noteq> bom \<and> r \<noteq> eof"
    by (simp add: runes_def ch_def bom_def eof_def)
  from C7_unterminated_string [OF h, of no_tables 0] obtain L where
      run: "lex_loop no_tables (Suc (Suc 0))
              (Lex (Read (ch (CHR 0x22)) # map Read (runes ''unterminated''))) = (True, L)"
    and props: "tokenStream L = []"
      "handled L = [\<lparr>pos = \<lparr>Line = 1, Col = wrap (2 + int (length (runes ''unterminated'')))\<rparr>,
                     err = ErrUnclosedStringLit\<rparr>]"
      "Errors L = 1" "closed L"
      "NextToken L zeroToken = \<lparr>Type = EOF, Literal = [], Pos = Origin\<rparr>"
    by blast
  have src: "text_source (CHR 0x22 # ''unterminated'') =
               Read (ch (CHR 0x22)) # map Read (runes ''unterminated'')"
    by (simp add: text_source_def runes_def)
  have two: "(2::nat) = Suc (Suc 0)"
    by simp
  have len: "wrap (2 + int (length (runes ''unterminated''))) = 14"
    by (simp add: runes_def wrap_def intSize_def)
  have "list_all (\<lambda>r. r \<noteq> ch (CHR 0x22) \<and> r \<noteq> ch (CHR 0x5C) \<and> r \<noteq> ch (CHR 0x0A) \<and> r \<noteq> bom \<and> r \<noteq> eof)
      (runes ''unterminated'')"
    using h by (simp only: list_all_iff)
  moreover have "\<exists>L. lex_loop no_tables 2 (Lex (text_source (CHR 0x22 # ''unterminated''))) = (True, L)
          \<and> tokenStream L = []
          \<and> handled L = [\<lparr>pos = \<lparr>Line = 1, Col = 14\<rparr>, err = ErrUnclosedStringLit\<rparr>]
          \<and> Errors L = 1
          \<and> closed L
          \<and> NextToken L zeroToken = \<lparr>Type = EOF, Literal = [], Pos = Origin\<rparr>"
    unfolding src two using run props unfolding len by blast
  ultimately show ?thesis ..
qed

text \<open>
  C8. A string literal that holds plain text, the escape \<^verbatim>\<open>\u0041\<close> and plain text again
  is scanned without an error. With \<^verbatim>\<open>\uD800\<close> in its place exactly one error is raised,
  "represents an invalid Unicode codepoint", at the end of the escape; the scan of the
  literal goes on, and the string token is sent with the whole literal.
\<close>

theorem C8_unicode_escapes:
  assumes "\<forall>r \<in> set pre. plain r" and "\<forall>r \<in> set post. plain r"
  shows "(\<exists>L. lex_loop U (Suc (Suc n))
               (Lex (Read (ch (CHR 0x22))
                     # map Read (pre @ ch (CHR 0x5C) # runes ''u0041'' @ post)
                     @ [Read (ch (CHR 0x22))])) = (True, L)
            \<and> handled L = [] \<and> Errors L = 0
            \<and> tokenStream L =
                [\<lparr>Type = String,
                  Literal = ch (CHR 0x22) # pre @ ch (CHR 0x5C) # runes ''u0041'' @ post
                            @ [ch (CHR 0x22)],
                  Pos = Origin\<rparr>])
       \<and> (\<exists>L. lex_loop U (Suc (Suc n))
               (Lex (Read (ch (CHR 0x22))
                     # map Read (pre @ ch (CHR 0x5C) # runes ''uD800'' @ post)
                     @ [Read (ch (CHR 0x22))])) = (True, L)
            \<and> handled L = [\<lparr>pos = \<lparr>Line = 1, Col = wrap (8 + int (length pre))\<rparr>,
                             err = ErrInvalidCodepoint (runes ''u'') (runes ''D800'')\<rparr>]
            \<and> Errors L = 1
            \<and> tokenStream L =
                [\<lparr>Type = String,
                  Literal = ch (CHR 0x22) # pre @ ch (CHR 0x5C) # runes ''uD800'' @ post
                            @ [ch (CHR 0x22)],
                  Pos = Origin\<rparr>])"
proof -
  have valid: "\<exists>L. lex_loop U (Suc (Suc n))
               (Lex (Read (ch (CHR 0x22))
                     # map Read (pre @ ch (CHR 0x5C) # runes ''u0041'' @ post)
                     @ [Read (ch (CHR 0x22))])) = (True, L)
            \<and> tokenStream L =
                [\<lparr>Type = String,
                  Literal = ch (CHR 0x22) # pre @ ch (CHR 0x5C) # runes ''u0041'' @ post
                            @ [ch (CHR 0x22)],
                  Pos = Origin\<rparr>]
            \<and> handled L = (\<lambda>p. []) \<lparr>Line = 1, Col = wrap (8 + int (length pre))\<rparr>
            \<and> Errors L = (\<lambda>e. e) 0
            \<and> closed L"
    by (rule lexString_one_escape [OF _ assms]) (simp add: consumeEscape_u0041)
  have surrogate: "\<exists>L. lex_loop U (Suc (Suc n))
               (Lex (Read (ch (CHR 0x22))
                     # map Read (pre @ ch (CHR 0x5C) # runes ''uD800'' @ post)
                     @ [Read (ch (CHR 0x22))])) = (True, L)
            \<and> tokenStream L =
                [\<lparr>Type = String,
                  Literal = ch (CHR 0x22) # pre @ ch (CHR 0x5C) # runes ''uD800'' @ post
                            @ [ch (CHR 0x22)],
                  Pos = Origin\<rparr>]
            \<and> handled L = (\<lambda>p. [\<lparr>pos = p, err = ErrInvalidCodepoint (runes ''u'') (runes ''D800'')\<rparr>])
                             \<lparr>Line = 1, Col = wrap (8 + int (length pre))\<rparr>
            \<and> Errors L = (\<lambda>e. wrap (e + 1)) 0
            \<and> closed L"
    by (rule lexString_one_escape [OF _ assms]) (simp add: consumeEscape_uD800)
  from valid surrogate show ?thesis
    by simp blast
qed

theorem C8_unicode_escapes_witness:
  "(\<exists>L. lex_loop no_tables 2
           (Lex (text_source (CHR 0x22 # CHR 0x5C # ''u0041'' @ [CHR 0x22]))) = (True, L)
        \<and> handled L = [] \<and> Errors L = 0
        \<and> tokenStream L =
            [\<lparr>Type = String, Literal = runes (CHR 0x22 # CHR 0x5C # ''u0041'' @ [CHR 0x22]),
              Pos = Origin\<rparr>])
   \<and> (\<exists>L. lex_loop no_tables 2
           (Lex (text_source (CHR 0x22 # CHR 0x5C # ''uD800'' @ [CHR 0x22]))) = (True, L)
        \<and> handled L = [\<lparr>pos = \<lparr>Line = 1, Col = 8\<rparr>,
                         err = ErrInvalidCodepoint (runes ''u'') (runes ''D800'')\<rparr>]
        \<and> Errors L = 1
        \<and> tokenStream L =
            [\<lparr>Type = String, Literal = runes (CHR 0x22 # CHR 0x5C # ''uD800'' @ [CHR 0x22]),
              Pos = Origin\<rparr>])"
proof -
  have two: "(2::nat) = Suc (Suc 0)"
    by simp
  have none: "\<forall>r \<in> set ([]::rune list). plain r"
    by simp
  show ?thesis
    unfolding two
    using C8_unicode_escapes [OF none none, of no_tables 0]
    by (simp add: text_source_def runes_def wrap_def intSize_def)
qed

text \<open>
  C9, at the input \<^verbatim>\<open>0\<close> followed by U+0663 (ARABIC-INDIC DIGIT THREE: a decimal digit
  for \<^verbatim>\<open>unicode.IsDigit\<close>, not a letter, without a lower case). The zero is a number token
  of its own and no error is raised, as the claim says; but the digit is not consumed:
  \<^verbatim>\<open>lex\<close> enters \<^verbatim>\<open>lexNumber\<close> on \<^verbatim>\<open>unicode.IsDigit\<close> and \<^verbatim>\<open>lexNumber\<close> consumes by
  \<^verbatim>\<open>token.IsDigit\<close>, which knows the ASCII digits only. Every later turn sends a number
  token with an empty literal, and after four turns the scan has not ended: there is no
  second token that holds the digit.
\<close>

theorem C9_zero_then_digit_outside_latin1:
  "lex_loop (no_tables\<lparr>Digit := (\<lambda>r. r = 0x663)\<rparr>) 4 (Lex [Read (ch CHR ''0''), Read 0x663]) =
     (False,
      \<lparr>source = [], current = 0x663,
       tokenStream = [\<lparr>Type = Number, Literal = runes ''0'', Pos = Origin\<rparr>,
                      \<lparr>Type = Number, Literal = [], Pos = \<lparr>Line = 1, Col = 2\<rparr>\<rparr>,
                      \<lparr>Type = Number, Literal = [], Pos = \<lparr>Line = 1, Col = 2\<rparr>\<rparr>,
                      \<lparr>Type = Number, Literal = [], Pos = \<lparr>Line = 1, Col = 2\<rparr>\<rparr>],
       closed = False, Errors = 0, handled = [], insertSemi = True,
       tokenStart = \<lparr>Line = 1, Col = 2\<rparr>, tokenEnd = \<lparr>Line = 1, Col = 2\<rparr>,
       tokenLiteral = [], panicked = False\<rparr>)"
proof -
  have "lex_loop (no_tables\<lparr>Digit := (\<lambda>r. r = 0x663)\<rparr>) (Suc (Suc (Suc (Suc 0))))
          (Lex [Read (ch CHR ''0''), Read 0x663]) =
     (False,
      \<lparr>source = [], current = 0x663,
       tokenStream = [\<lparr>Type = Number, Literal = runes ''0'', Pos = Origin\<rparr>,
                      \<lparr>Type = Number, Literal = [], Pos = \<lparr>Line = 1, Col = 2\<rparr>\<rparr>,
                      \<lparr>Type = Number, Literal = [], Pos = \<lparr>Line = 1, Col = 2\<rparr>\<rparr>,
                      \<lparr>Type = Number, Literal = [], Pos = \<lparr>Line = 1, Col = 2\<rparr>\<rparr>],
       closed = False, Errors = 0, handled = [], insertSemi = True,
       tokenStart = \<lparr>Line = 1, Col = 2\<rparr>, tokenEnd = \<lparr>Line = 1, Col = 2\<rparr>,
       tokenLiteral = [], panicked = False\<rparr>)"
    by code_simp
  then show ?thesis
    by (simp add: eval_nat_numeral)
qed



section \<open>A scan that does not end\<close>

text \<open>
  Why the loop is run on fuel. \<^verbatim>\<open>lex\<close> enters \<^verbatim>\<open>lexNumber\<close> on \<^verbatim>\<open>unicode.IsDigit\<close>, while
  \<^verbatim>\<open>lexNumber\<close> consumes by \<^verbatim>\<open>token.IsDigit\<close>, which knows the ASCII digits only. At a
  decimal digit outside Latin-1 (one that is not a letter and has no lower case) a turn
  sends a number token with an empty literal and consumes nothing, so the next turn does
  the same: after \<open>n\<close> turns the goroutine has not ended and has sent \<open>n\<close> such tokens.
\<close>

theorem digit_outside_latin1_never_ends:
  assumes "MaxLatin1 < d" "d \<le> MaxRune" "d \<noteq> bom" "Digit U d" "\<not> Letter U d" "LowerCase U d = d"
  shows "\<exists>L. lex_loop U n (Lex (Read d # rest)) = (False, L)
            \<and> tokenStream L = replicate n \<lparr>Type = Number, Literal = [], Pos = Origin\<rparr>
            \<and> source L = rest"
proof -
  define t where "t = \<lparr>Type = Number, Literal = [], Pos = Origin\<rparr>"
  have run: "\<not> closed L \<Longrightarrow> \<not> panicked L \<Longrightarrow> current L = d \<Longrightarrow> tokenLiteral L = []
      \<Longrightarrow> tokenStart L = Origin \<Longrightarrow> tokenEnd L = Origin \<Longrightarrow>
      \<exists>L'. lex_loop U n L = (False, L') \<and> tokenStream L' = tokenStream L @ replicate n t
            \<and> source L' = source L" for L
  proof (induction n arbitrary: L)
    case 0
    then show ?case by simp
  next
    case (Suc n)
    have body: "lex_body U L = (True, emit Number L)"
      using assms Suc.prems by (intro lex_body_digit_outside_latin1) simp_all
    have e: "emit Number L = L\<lparr>insertSemi := True, tokenStream := tokenStream L @ [t]\<rparr>"
      using Suc.prems
      by (simp add: emit_def discard_def Let_def t_def InsertSemiAfter_def IsLiteral_def Type_defs)
    have "\<exists>L'. lex_loop U n (emit Number L) = (False, L')
            \<and> tokenStream L' = tokenStream (emit Number L) @ replicate n t
            \<and> source L' = source (emit Number L)"
      by (rule Suc.IH) (use Suc.prems in \<open>simp_all add: e\<close>)
    then show ?case
      by (simp add: body e replicate_append_same)
  qed
  have "Lex (Read d # rest) =
     \<lparr>source = rest, current = d, tokenStream = [], closed = False, Errors = 0,
      handled = [], insertSemi = False, tokenStart = Origin, tokenEnd = Origin,
      tokenLiteral = [], panicked = False\<rparr>"
    using assms(3) by (rule Lex_Read)
  with run [of "Lex (Read d # rest)"] show ?thesis
    by (simp add: t_def)
qed

theorem digit_outside_latin1_never_ends_witness:
  "\<exists>L. lex_loop (no_tables\<lparr>Digit := (\<lambda>r. r = 0x663)\<rparr>) 3 (Lex [Read 0x663]) = (False, L)
      \<and> tokenStream L = replicate 3 \<lparr>Type = Number, Literal = [], Pos = Origin\<rparr>"
  using digit_outside_latin1_never_ends [of "0x663" "no_tables\<lparr>Digit := (\<lambda>r. r = 0x663)\<rparr>" 3 "[]"]
  by (auto simp: no_tables_def MaxLatin1_def MaxRune_def bom_def)

section \<open>A zero before an eight or a nine\<close>

text \<open>
  The rule of C9 for the ASCII digits. Whenever the loop stands at a \<^verbatim>\<open>0\<close> followed by
  \<^verbatim>\<open>8\<close> or \<^verbatim>\<open>9\<close>, and no read of what is left of the source fails: the turn sends the
  zero as a number token of its own (base 8, no digit required) and raises no error, and
  the next turn sends a second number token, which starts one column on and whose literal
  begins with that digit. When the input ends after the digit, or goes on with a rune that
  is not a decimal digit, a dot or an exponent letter, the second literal is the digit
  alone and no error is raised in either turn.
\<close>

theorem leading_zero_then_eight_or_nine:
  assumes "lex_loop U n (Lex src) = (False, L)"
    and "current L = ch CHR ''0''"
    and "source L = Read d # rest"
    and "d = ch CHR ''8'' \<or> d = ch CHR ''9''"
    and "ReadFailure \<notin> set rest"
  shows "\<exists>L' L'' s. lex_body U L = (True, L') \<and> lex_body U L' = (True, L'')
            \<and> tokenStream L' = tokenStream L @
                 [\<lparr>Type = Number, Literal = runes ''0'', Pos = tokenStart L\<rparr>]
            \<and> handled L' = handled L \<and> Errors L' = Errors L
            \<and> tokenStart L' = NextCharacter (tokenEnd L)
            \<and> tokenStream L'' = tokenStream L' @
                 [\<lparr>Type = Number, Literal = d # s, Pos = tokenStart L'\<rparr>]
            \<and> (rest = [] \<or>
                 (\<exists>c rest'. rest = Read c # rest' \<and> c \<noteq> bom \<and> \<not> IsDigit c 10 \<and> c \<noteq> ch CHR ''.''
                     \<and> ToLower U c \<noteq> ch CHR ''e'' \<and> ToLower U c \<noteq> ch CHR ''p'')
                 \<longrightarrow> s = [] \<and> handled L'' = handled L \<and> Errors L'' = Errors L)"
proof -
  have inv: "lexer_inv L" and np: "\<not> panicked L"
    using loop_head [OF assms(1)] by simp_all
  have cur: "current L = 48"
    using assms(2) by (simp add: ch_def)
  have nc: "\<not> closed L"
    using inv cur by (auto simp: lexer_inv_def closed_at_eof_def eof_def)
  have lit: "tokenLiteral L = []"
    using inv np cur by (auto simp: lexer_inv_def settled_def eof_def ch_def)
  have nf: "ReadFailure \<notin> set (source L)"
    using assms(3,5) by simp
  have db: "d \<noteq> bom"
    using assms(4) by (auto simp: bom_def ch_def)
  have c: "consume L = (consumed L)\<lparr>source := rest, current := d\<rparr>"
    using nc assms(3) db by (rule consume_Read)
  have num: "lexNumber_consume U L = consume L"
    using zero_then_eight_or_nine [OF nc assms(2,3,4), of U] by (simp add: c)
  define L' where "L' = emit Number (consume L)"
  note sent = emit_sends [OF within_consume nc np nf, of Number, folded L'_def]
  have "lex_body U L = again L'"
    using digit_dispatch [of L U] assms(2) by (simp add: lexNumber_def num L'_def ch_def)
  then have first: "lex_body U L = (True, L')"
    using sent(1) by simp
  have tok: "tokenStream L' = tokenStream L @
                 [\<lparr>Type = Number, Literal = runes ''0'', Pos = tokenStart L\<rparr>]"
    using sent(2)
    by (simp add: c consumed_def lit cur string_of_rune_def ValidRune_def runes_def ch_def)
  have err: "handled L' = handled L" "Errors L' = Errors L"
    using sent(9,10) by (simp_all add: c consumed_def)
  have start: "tokenStart L' = NextCharacter (tokenEnd L)"
    using sent(11) by (simp add: c consumed_def cur ch_def)
  have L': "\<not> closed L'" "\<not> panicked L'" "ReadFailure \<notin> set (source L')" "tokenLiteral L' = []"
      "current L' = d" "source L' = rest"
    using sent by (simp_all add: c)
  have dig: "IsDigit (current L') 10"
    using assms(4) by (auto simp: L' IsDigit_def runes_def ch_def)
  let ?single = "rest = [] \<or>
                 (\<exists>c rest'. rest = Read c # rest' \<and> c \<noteq> bom \<and> \<not> IsDigit c 10 \<and> c \<noteq> ch CHR ''.''
                     \<and> ToLower U c \<noteq> ch CHR ''e'' \<and> ToLower U c \<noteq> ch CHR ''p'')"
  have "\<exists>L'' s. lex_body U L' = (True, L'')
            \<and> tokenStream L'' = tokenStream L' @
                 [\<lparr>Type = Number, Literal = d # s, Pos = tokenStart L'\<rparr>]
            \<and> (?single \<longrightarrow> s = [] \<and> handled L'' = handled L \<and> Errors L'' = Errors L)"
  proof (cases ?single)
    case True
    have d': "current L' = ch CHR ''8'' \<or> current L' = ch CHR ''9''"
      using assms(4) by (simp add: L')
    have nxt: "source L' = [] \<or>
              (\<exists>c rest'. source L' = Read c # rest' \<and> c \<noteq> bom \<and> \<not> IsDigit c 10 \<and> c \<noteq> ch CHR ''.''
                  \<and> ToLower U c \<noteq> ch CHR ''e'' \<and> ToLower U c \<noteq> ch CHR ''p'')"
      using True by (simp add: L')
    note single = number_single [OF L'(1) d' nxt]
    define L'' where "L'' = emit Number (consume L')"
    note sent2 = emit_sends [OF within_consume L'(1,2,3), of Number, folded L''_def]
    have "lex_body U L' = again L''"
      using digit_dispatch [OF IsDigit_10 [OF dig], of U]
      by (simp add: lexNumber_def single(1) L''_def)
    then have "lex_body U L' = (True, L'')"
      using sent2(1) by simp
    moreover have "tokenStream L'' = tokenStream L' @
                 [\<lparr>Type = Number, Literal = d # [], Pos = tokenStart L'\<rparr>]"
      using sent2(2) by (simp add: single(4) L')
    moreover have "handled L'' = handled L" "Errors L'' = Errors L"
      using sent2(9,10) by (simp_all add: single(2,3) err)
    ultimately show ?thesis
      by blast
  next
    case False
    from digit_turn [OF L'(1,2,3,4) dig, of U] False show ?thesis
      by (auto simp: L')
  qed
  with first tok err start show ?thesis
    by blast
qed

theorem leading_zero_then_eight_or_nine_witness:
  "(\<exists>L' L''. lex_body no_tables (Lex (text_source ''08'')) = (True, L')
        \<and> lex_body no_tables L' = (True, L'')
        \<and> tokenStream L'' = [\<lparr>Type = Number, Literal = runes ''0'', Pos = Origin\<rparr>,
                              \<lparr>Type = Number, Literal = runes ''8'', Pos = \<lparr>Line = 1, Col = 2\<rparr>\<rparr>]
        \<and> handled L'' = [] \<and> Errors L'' = 0)
   \<and> (\<exists>L' L''. lex_body no_tables (Lex (text_source ''09'')) = (True, L')
        \<and> lex_body no_tables L' = (True, L'')
        \<and> tokenStream L'' = [\<lparr>Type = Number, Literal = runes ''0'', Pos = Origin\<rparr>,
                              \<lparr>Type = Number, Literal = runes ''9'', Pos = \<lparr>Line = 1, Col = 2\<rparr>\<rparr>]
        \<and> handled L'' = [] \<and> Errors L'' = 0)"
proof -
  have L8: "Lex (text_source ''08'') =
     \<lparr>source = [Read (ch CHR ''8'')], current = ch CHR ''0'', tokenStream = [], closed = False,
      Errors = 0, handled = [], insertSemi = False, tokenStart = Origin, tokenEnd = Origin,
      tokenLiteral = [], panicked = False\<rparr>"
    by (simp add: text_source_def runes_def Lex_Read ch_def bom_def)
  have L9: "Lex (text_source ''09'') =
     \<lparr>source = [Read (ch CHR ''9'')], current = ch CHR ''0'', tokenStream = [], closed = False,
      Errors = 0, handled = [], insertSemi = False, tokenStart = Origin, tokenEnd = Origin,
      tokenLiteral = [], panicked = False\<rparr>"
    by (simp add: text_source_def runes_def Lex_Read ch_def bom_def)
  have r8: "lex_loop no_tables 0 (Lex (text_source ''08'')) = (False, Lex (text_source ''08''))"
    by simp
  have r9: "lex_loop no_tables 0 (Lex (text_source ''09'')) = (False, Lex (text_source ''09''))"
    by simp
  have col: "NextCharacter Origin = \<lparr>Line = 1, Col = 2\<rparr>"
    by (simp add: NextCharacter_def Origin_def)
  have eight: "\<exists>L' L''. lex_body no_tables (Lex (text_source ''08'')) = (True, L')
        \<and> lex_body no_tables L' = (True, L'')
        \<and> tokenStream L'' = [\<lparr>Type = Number, Literal = runes ''0'', Pos = Origin\<rparr>,
                              \<lparr>Type = Number, Literal = runes ''8'', Pos = \<lparr>Line = 1, Col = 2\<rparr>\<rparr>]
        \<and> handled L'' = [] \<and> Errors L'' = 0"
    using leading_zero_then_eight_or_nine [OF r8, of "ch CHR ''8''" "[]"]
    by (simp add: L8 col) (auto simp: runes_def)
  have nine: "\<exists>L' L''. lex_body no_tables (Lex (text_source ''09'')) = (True, L')
        \<and> lex_body no_tables L' = (True, L'')
        \<and> tokenStream L'' = [\<lparr>Type = Number, Literal = runes ''0'', Pos = Origin\<rparr>,
                              \<lparr>Type = Number, Literal = runes ''9'', Pos = \<lparr>Line = 1, Col = 2\<rparr>\<rparr>]
        \<and> handled L'' = [] \<and> Errors L'' = 0"
    using leading_zero_then_eight_or_nine [OF r9, of "ch CHR ''9''" "[]"]
    by (simp add: L9 col) (auto simp: runes_def)
  from eight nine show ?thesis ..
qed

end
